theory Spec2Isabelle
  imports Main "HOL-Library.Sublist" "HOL-Library.Word"
begin

section \<open>Errors\<close>

text \<open>
  The package-level error values of \<^verbatim>\<open>cmd.go\<close>. Any other error (one returned by the
  operating system or by a library call) is \<open>ErrOther\<close> with its message.
\<close>

datatype error =
    ErrIncomplete
  | ErrUserDenied
  | ErrSyntaxError
  | ErrNoSuchFile
  | ErrMustBeRoot
  | ErrOther string

section \<open>String primitives of the Go library\<close>

text \<open>
  Go strings are byte sequences; a \<open>string\<close> here is the list of those bytes.
  \<open>Index s sep\<close> is \<^verbatim>\<open>strings.Index\<close>: the position of the first occurrence of \<open>sep\<close>,
  \<open>None\<close> where Go returns \<^verbatim>\<open>-1\<close>.
\<close>

fun Index :: "string \<Rightarrow> string \<Rightarrow> nat option" where
  "Index [] sep = (if sep = [] then Some 0 else None)"
| "Index (c # s) sep =
     (if prefix sep (c # s) then Some 0 else map_option Suc (Index s sep))"

lemma Index_bound: "Index s sep = Some i \<Longrightarrow> i + length sep \<le> length s"
proof (induction s arbitrary: i)
  case Nil
  then show ?case by (simp split: if_splits)
next
  case (Cons c s)
  show ?case
  proof (cases "prefix sep (c # s)")
    case True
    with Cons.prems show ?thesis by (auto dest: prefix_length_le)
  next
    case False
    with Cons.prems obtain j where "Index s sep = Some j" "i = Suc j" by auto
    with Cons.IH show ?thesis by fastforce
  qed
qed

text \<open>
  \<open>Replace s old new\<close> is \<^verbatim>\<open>strings.Replace(s, old, new, -1)\<close>: the non-overlapping
  occurrences of \<open>old\<close> are replaced from left to right, each search starting after the
  previous occurrence. For an empty \<open>old\<close> Go inserts \<open>new\<close> before every rune and at
  the end; both callers in \<^verbatim>\<open>cmd.go\<close> pass a non-empty \<open>old\<close>, and the model inserts
  before every byte there.
\<close>

function Replace :: "string \<Rightarrow> string \<Rightarrow> string \<Rightarrow> string" where
  "Replace s old new =
     (if old = [] then concat (map (\<lambda>c. new @ [c]) s) @ new
      else (case Index s old of
              None \<Rightarrow> s
            | Some i \<Rightarrow> take i s @ new @ Replace (drop (i + length old) s) old new))"
  by pat_completeness auto
termination
  by (relation "measure (\<lambda>(s, old, new). length s)")
     (auto simp: neq_Nil_conv dest!: Index_bound)

text \<open>\<open>Join\<close> is \<^verbatim>\<open>strings.Join\<close>.\<close>

fun Join :: "string list \<Rightarrow> string \<Rightarrow> string" where
  "Join [] sep = []"
| "Join [a] sep = a"
| "Join (a # b # as) sep = a @ sep @ Join (b # as) sep"

section \<open>The two regular expressions\<close>

text \<open>
  \<^verbatim>\<open>pmatch = regexp.Compile("{{[A-Z]+}}")\<close>, used through \<^verbatim>\<open>MatchString\<close> only: is
  there a position where two opening braces, a non-empty run of upper-case ASCII letters
  and two closing braces follow each other. A closing brace is no upper-case letter, so
  the run that the expression takes at a position is the longest one.
\<close>

definition isUpperAZ :: "char \<Rightarrow> bool" where
  "isUpperAZ c = ((65::nat) \<le> of_char c \<and> of_char c \<le> (90::nat))"

definition pmatch_here :: "string \<Rightarrow> bool" where
  "pmatch_here s =
     (case s of
        c1 # c2 # r \<Rightarrow>
          c1 = CHR ''{'' \<and> c2 = CHR ''{'' \<and> takeWhile isUpperAZ r \<noteq> []
            \<and> prefix ''}}'' (dropWhile isUpperAZ r)
      | _ \<Rightarrow> False)"

fun pmatch :: "string \<Rightarrow> bool" where
  "pmatch [] = False"
| "pmatch (c # s) = (pmatch_here (c # s) \<or> pmatch s)"

text \<open>
  \<^verbatim>\<open>globs = regexp.Compile("[\\w.-]*\\*[\\w.-]*")\<close>, used through
  \<^verbatim>\<open>FindAllString(text, -1)\<close>: the successive leftmost matches, each search starting where
  the previous match ended. The class \<^verbatim>\<open>[\w.-]\<close> is the ASCII letters and digits, the
  underscore, the dot and the hyphen; the star is not in it, so a match is the run of class
  characters before a star (as far back as the previous match allows), the star, and the
  run of class characters after it. \<open>acc\<close> is the run of class characters read since
  the last match or the last character outside the class.
\<close>

definition isWordClass :: "char \<Rightarrow> bool" where
  "isWordClass c =
     (let n = (of_char c :: nat) in
        (48 \<le> n \<and> n \<le> 57) \<or> (65 \<le> n \<and> n \<le> 90) \<or> (97 \<le> n \<and> n \<le> 122)
          \<or> c = CHR ''_'' \<or> c = CHR ''.'' \<or> c = CHR ''-'')"

function globs_scan :: "string \<Rightarrow> string \<Rightarrow> string list" where
  "globs_scan acc [] = []"
| "globs_scan acc (c # s) =
     (if c = CHR ''*''
      then (acc @ [c] @ takeWhile isWordClass s) # globs_scan [] (dropWhile isWordClass s)
      else if isWordClass c then globs_scan (acc @ [c]) s
      else globs_scan [] s)"
  by pat_completeness auto
termination
  by (relation "measure (\<lambda>(acc, s). length s)")
     (auto simp: length_dropWhile_le less_Suc_eq_le)

definition globs_FindAllString :: "string \<Rightarrow> string list" where
  "globs_FindAllString text = globs_scan [] text"

section \<open>Environment expansion\<close>

text \<open>
  \<^verbatim>\<open>os.ExpandEnv(s)\<close> is \<^verbatim>\<open>os.Expand(s, os.Getenv)\<close>, modelled as the current Go
  library has it; the process environment is the function \<open>getenv\<close>, an unset variable
  reading as the empty string.
\<close>

definition isShellSpecialVar :: "char \<Rightarrow> bool" where
  "isShellSpecialVar c = (c \<in> set ''*#$@!?-0123456789'')"

definition isAlphaNum :: "char \<Rightarrow> bool" where
  "isAlphaNum c =
     (let n = (of_char c :: nat) in
        c = CHR ''_'' \<or> (48 \<le> n \<and> n \<le> 57) \<or> (97 \<le> n \<and> n \<le> 122) \<or> (65 \<le> n \<and> n \<le> 90))"

text \<open>
  \<open>scan_brace r\<close> is the scan for the closing brace in \<^verbatim>\<open>getShellName\<close>, \<open>r\<close> the
  text after the opening brace. \<open>getShellName s\<close>, for the non-empty text \<open>s\<close> after a
  dollar sign, is the variable name and the number of bytes it takes.
\<close>

definition scan_brace :: "string \<Rightarrow> string \<times> nat" where
  "scan_brace r =
     (let k = length (takeWhile (\<lambda>c. c \<noteq> CHR ''}'') r) in
        if k < length r then (if k = 0 then ([], 2) else (take k r, k + 2))
        else ([], 1))"

definition getShellName :: "string \<Rightarrow> string \<times> nat" where
  "getShellName s =
     (case s of
        [] \<Rightarrow> ([], 0)
      | c # r \<Rightarrow>
          if c = CHR ''{'' then
            (case r of
               c1 # c2 # _ \<Rightarrow>
                 if isShellSpecialVar c1 \<and> c2 = CHR ''}'' then ([c1], 3)
                 else scan_brace r
             | _ \<Rightarrow> scan_brace r)
          else if isShellSpecialVar c then ([c], 1)
          else (takeWhile isAlphaNum s, length (takeWhile isAlphaNum s)))"

function Expand :: "(string \<Rightarrow> string) \<Rightarrow> string \<Rightarrow> string" where
  "Expand mapping [] = []"
| "Expand mapping (c # s) =
     (if c = CHR ''$'' \<and> s \<noteq> [] then
        (case getShellName s of
           (name, w) \<Rightarrow>
             (if name = [] \<and> 0 < w then []
              else if name = [] then [c]
              else mapping name) @ Expand mapping (drop w s))
      else c # Expand mapping s)"
  by pat_completeness auto
termination
  by (relation "measure (\<lambda>(mapping, s). length s)") auto

section \<open>The template renderer\<close>

text \<open>
  What the renderer reads of the machine: the process environment and the file system
  through \<^verbatim>\<open>filepath.Glob\<close>, which returns the matching paths or an error.
\<close>

record fsenv =
  getenv :: "string \<Rightarrow> string"
  Glob :: "string \<Rightarrow> error + string list"

text \<open>
  The first loop of \<^verbatim>\<open>optional\<close>. A Go function returns its text together with the
  error, so the result is the pair of both, \<open>None\<close> for \<^verbatim>\<open>nil\<close>. The slice
  \<^verbatim>\<open>text[start+1:end]\<close> is in range: the two indices are positions of different bytes.
\<close>

function brackets :: "string \<Rightarrow> string \<times> error option" where
  "brackets text =
     (case Index text ''['' of
        None \<Rightarrow> (text, None)
      | Some start \<Rightarrow>
          (case Index text '']'' of
             None \<Rightarrow> (text, Some ErrSyntaxError)
           | Some fin \<Rightarrow>
               if fin < start then (text, Some ErrSyntaxError)
               else if pmatch text
                 then brackets (take start text @ drop (fin + 1) text)
                 else brackets (take start text
                        @ take (fin - (start + 1)) (drop (start + 1) text)
                        @ drop (fin + 1) text)))"
  by pat_completeness auto
termination
  by (relation "measure length") (auto dest!: Index_bound)

text \<open>
  The last loop of \<^verbatim>\<open>optional\<close>: \<open>gs\<close> are the matches of \<^verbatim>\<open>globs\<close> in the
  expanded text, found once, before the loop; every replacement is made in the text as it
  is by then.
\<close>

fun glob_loop :: "'a fsenv_scheme \<Rightarrow> string list \<Rightarrow> string \<Rightarrow> string \<times> error option" where
  "glob_loop env [] text = (text, None)"
| "glob_loop env (g # gs) text =
     (case Glob env g of
        Inl err \<Rightarrow> (text, Some err)
      | Inr files \<Rightarrow>
          if length files = 0 then (text, Some ErrNoSuchFile)
          else glob_loop env gs (Replace text g (Join files '' '')))"

definition optional :: "'a fsenv_scheme \<Rightarrow> string \<Rightarrow> string \<times> error option" where
  "optional env text0 =
     (case brackets text0 of
        (text, Some err) \<Rightarrow> (text, Some err)
      | (text, None) \<Rightarrow>
          if pmatch text then (text, Some ErrIncomplete)
          else (let text' = Expand (getenv env) text
                in glob_loop env (globs_FindAllString text') text'))"

text \<open>
  \<^verbatim>\<open>type Param [2]string\<close>: the name and the value. \<^verbatim>\<open>Command\<close> is the template.
\<close>

type_synonym Param = "string \<times> string"

record Command =
  Path :: string
  Params :: string
  Dir :: string
  User :: string
  Async :: bool

text \<open>The loop over the parameters in \<^verbatim>\<open>Render\<close>, and \<^verbatim>\<open>Render\<close>.\<close>

fun Render_loop :: "string \<Rightarrow> Param list \<Rightarrow> string" where
  "Render_loop text [] = text"
| "Render_loop text (p # ps) =
     Render_loop
       (if 0 < length (fst p) then Replace text (''{{'' @ fst p @ ''}}'') (snd p)
        else text @ '' '' @ snd p)
       ps"

definition Render :: "'a fsenv_scheme \<Rightarrow> Command \<Rightarrow> Param list \<Rightarrow> string \<times> error option" where
  "Render env c params = optional env (Render_loop (Params c) params)"

text \<open>
  Two concrete inputs for the examples: a machine with an empty environment and no file at
  all, and a template for \<^verbatim>\<open>/bin/ls\<close>.
\<close>

definition bare_env :: fsenv where
  "bare_env = \<lparr>getenv = (\<lambda>name. []), Glob = (\<lambda>pattern. Inr [])\<rparr>"

definition template :: "string \<Rightarrow> Command" where
  "template ps = \<lparr>Path = ''/bin/ls'', Params = ps, Dir = [], User = [], Async = False\<rparr>"



text \<open>
  Templates whose brackets are well formed, for stating what the renderer does with them:
  \<open>fragments_text x0 [(m1, x1), (m2, x2), \<dots>]\<close> is the text \<open>x0 [m1] x1 [m2] x2 \<dots>\<close> and
  \<open>outside_text\<close> is what is left of it without the fragments, \<open>x0 x1 x2 \<dots>\<close>. The text
  is \<open>well_bracketed\<close> when no \<open>x\<close> has a bracket and no \<open>m\<close> has a closing one.
\<close>

fun fragments_text :: "string \<Rightarrow> (string \<times> string) list \<Rightarrow> string" where
  "fragments_text x0 [] = x0"
| "fragments_text x0 ((m, x) # fs) = x0 @ ''['' @ m @ '']'' @ fragments_text x fs"

fun outside_text :: "string \<Rightarrow> (string \<times> string) list \<Rightarrow> string" where
  "outside_text x0 [] = x0"
| "outside_text x0 ((m, x) # fs) = x0 @ outside_text x fs"

definition no_bracket :: "string \<Rightarrow> bool" where
  "no_bracket s = (CHR ''['' \<notin> set s \<and> CHR '']'' \<notin> set s)"

definition well_bracketed :: "string \<Rightarrow> (string \<times> string) list \<Rightarrow> bool" where
  "well_bracketed x0 fs =
     (no_bracket x0 \<and> (\<forall>(m, x)\<in>set fs. CHR '']'' \<notin> set m \<and> no_bracket x))"


definition flat_fragments :: "(string \<times> string) list \<Rightarrow> bool" where
  "flat_fragments fs = (\<forall>(m, x)\<in>set fs. no_bracket m \<and> no_bracket x)"

fun resolved_text :: "string \<Rightarrow> (string \<times> string) list \<Rightarrow> string" where
  "resolved_text x0 [] = x0"
| "resolved_text x0 ((m, x) # fs) =
     (if pmatch (fragments_text x0 ((m, x) # fs)) then resolved_text (x0 @ x) fs
      else resolved_text (x0 @ m @ x) fs)"

text \<open>
  A machine for the examples with files: an empty environment and one flat directory.
  \<open>star_match\<close> is shell matching for a pattern whose only special character is the
  star, and the \<open>Glob\<close> of \<open>dir_env files\<close> returns the files of the directory that match.
\<close>

fun star_match :: "string \<Rightarrow> string \<Rightarrow> bool" where
  "star_match [] s = (s = [])"
| "star_match (p # ps) [] = (p = CHR ''*'' \<and> star_match ps [])"
| "star_match (p # ps) (c # s) =
     (if p = CHR ''*'' then star_match ps (c # s) \<or> star_match (p # ps) s
      else p = c \<and> star_match ps s)"

definition dir_env :: "string list \<Rightarrow> fsenv" where
  "dir_env files = \<lparr>getenv = (\<lambda>name. []), Glob = (\<lambda>pattern. Inr (filter (star_match pattern) files))\<rparr>"

section \<open>Splitting the command line\<close>

text \<open>
  \<^verbatim>\<open>strings.Fields\<close> splits around runs of white space as \<^verbatim>\<open>unicode.IsSpace\<close> defines it,
  reading the text rune by rune. \<open>decodeRune\<close> is the UTF-8 decoding of Go's \<^verbatim>\<open>range\<close>
  over a string: the code point at the head of the text and its width in bytes, an
  invalid or truncated encoding reading as \<^verbatim>\<open>U+FFFD\<close> of width one.
\<close>

definition isSpace :: "nat \<Rightarrow> bool" where
  "isSpace r =
     ((9 \<le> r \<and> r \<le> 13) \<or> r = 32 \<or> r = 133 \<or> r = 160 \<or> r = 5760
        \<or> (8192 \<le> r \<and> r \<le> 8202) \<or> r = 8232 \<or> r = 8233 \<or> r = 8239 \<or> r = 8287
        \<or> r = 12288)"

definition cont :: "char \<Rightarrow> bool" where
  "cont c = ((128::nat) \<le> of_char c \<and> of_char c \<le> (191::nat))"

fun decodeRune :: "string \<Rightarrow> nat \<times> nat" where
  "decodeRune [] = (65533, 0)"
| "decodeRune (c0 # s) =
     (let b0 = (of_char c0 :: nat) in
        if b0 < 128 then (b0, 1)
        else if 194 \<le> b0 \<and> b0 \<le> 223 then
          (case s of
             c1 # _ \<Rightarrow>
               if cont c1 then ((b0 mod 32) * 64 + of_char c1 mod 64, 2) else (65533, 1)
           | _ \<Rightarrow> (65533, 1))
        else if 224 \<le> b0 \<and> b0 \<le> 239 then
          (case s of
             c1 # c2 # _ \<Rightarrow>
               if (if b0 = 224 then 160 else 128) \<le> (of_char c1 :: nat)
                  \<and> (of_char c1 :: nat) \<le> (if b0 = 237 then 159 else 191) \<and> cont c2
               then (((b0 mod 16) * 64 + of_char c1 mod 64) * 64 + of_char c2 mod 64, 3)
               else (65533, 1)
           | _ \<Rightarrow> (65533, 1))
        else if 240 \<le> b0 \<and> b0 \<le> 244 then
          (case s of
             c1 # c2 # c3 # _ \<Rightarrow>
               if (if b0 = 240 then 144 else 128) \<le> (of_char c1 :: nat)
                  \<and> (of_char c1 :: nat) \<le> (if b0 = 244 then 143 else 191)
                  \<and> cont c2 \<and> cont c3
               then ((((b0 mod 8) * 64 + of_char c1 mod 64) * 64 + of_char c2 mod 64) * 64
                       + of_char c3 mod 64, 4)
               else (65533, 1)
           | _ \<Rightarrow> (65533, 1))
        else (65533, 1))"

lemma decodeRune_width: "decodeRune (c # s) = (r, w) \<Longrightarrow> 1 \<le> w"
  by (auto simp: Let_def split: if_splits list.splits)

text \<open>
  The loop of \<^verbatim>\<open>FieldsFunc\<close>; \<open>cur\<close> is the field being read, empty between fields.
\<close>

function Fields_loop :: "string \<Rightarrow> string \<Rightarrow> string list" where
  "Fields_loop cur [] = (if cur = [] then [] else [cur])"
| "Fields_loop cur (c # s) =
     (case decodeRune (c # s) of
        (r, w) \<Rightarrow>
          if isSpace r then (if cur = [] then [] else [cur]) @ Fields_loop [] (drop w (c # s))
          else Fields_loop (cur @ take w (c # s)) (drop w (c # s)))"
  by pat_completeness auto
termination
  by (relation "measure (\<lambda>(cur, s). length s)")
     (auto dest!: decodeRune_width decodeRune_width [OF sym] simp del: decodeRune.simps)

definition Fields :: "string \<Rightarrow> string list" where
  "Fields s = Fields_loop [] s"

text \<open>The white-space bytes of ASCII, for stating what a field cannot contain.\<close>

definition isSpaceByte :: "char \<Rightarrow> bool" where
  "isSpaceByte c = (let n = (of_char c :: nat) in (9 \<le> n \<and> n \<le> 13) \<or> n = 32)"

section \<open>The process runner\<close>

text \<open>
  \<^verbatim>\<open>Runtime\<close> is the result record: \<^verbatim>\<open>SID\<close> an \<^verbatim>\<open>int64\<close>, the durations and the times
  integers (nanoseconds), the zero value of a time being \<open>0\<close>. \<open>Runtime_zero\<close> is Go's
  \<^verbatim>\<open>Runtime{}\<close>.
\<close>

record Runtime =
  SID :: "64 word"
  PID :: int
  RC :: int
  Cmd :: string
  Stdout :: string
  Stderr :: string
  SystemTime :: int
  UserTime :: int
  Started :: int
  Finished :: int

definition Runtime_zero :: Runtime where
  "Runtime_zero =
     \<lparr>SID = 0, PID = 0, RC = 0, Cmd = [], Stdout = [], Stderr = [], SystemTime = 0,
      UserTime = 0, Started = 0, Finished = 0\<rparr>"

text \<open>
  \<^verbatim>\<open>nextID\<close> when no other call runs at the same time: the counter after the call and the
  value returned. The addition of an \<^verbatim>\<open>int64\<close> wraps around.
\<close>

definition nextID :: "64 word \<Rightarrow> 64 word \<times> 64 word" where
  "nextID sessionID = (sessionID + 1, sessionID + 1)"

text \<open>
  What \<^verbatim>\<open>Runner\<close> reads of the operating system, beyond what the renderer reads: the
  result of every call it makes. \<open>ProcessState\<close> is what \<^verbatim>\<open>p.Wait()\<close> reports of the
  child, \<open>ProcAttr\<close> the attributes that \<^verbatim>\<open>Runner\<close> sets (the three files are always the
  same: no input, the two pipes). \<^verbatim>\<open>readString\<close> returns the bytes read so far together
  with its error. Every call is taken to return: a child that never exits is outside the
  model.
\<close>

record ProcessState =
  ps_Pid :: int
  ps_ExitStatus :: int
  ps_UserTime :: int

record ProcAttr =
  attr_Dir :: string
  attr_Uid :: "32 word option"

record osenv = fsenv +
  LookPath :: "string \<Rightarrow> error + string"
  Pipe_err :: "error option"
  Pipe_out :: "error option"
  Getuid :: int
  Lookup :: "string \<Rightarrow> error + string"
  ParseUint :: "string \<Rightarrow> error + nat"
  StartProcess :: "string \<Rightarrow> string list \<Rightarrow> ProcAttr \<Rightarrow> error option"
  Wait :: "error + ProcessState"
  read_outOut :: "string \<times> error option"
  read_errOut :: "string \<times> error option"
  Now_started :: int
  Now_finished :: int

text \<open>
  The closure \<^verbatim>\<open>finisher\<close>, on the record \<open>r\<close> as it is when the closure starts: the
  record when it ends, the error it returns, what it sends on the channel, and whether it
  panics. The error of \<^verbatim>\<open>p.Wait()\<close> is overwritten by the next assignment and never
  read; when \<^verbatim>\<open>Wait\<close> fails its state is \<^verbatim>\<open>nil\<close> and \<^verbatim>\<open>s.Pid()\<close> panics.
\<close>

record finished =
  fin_r :: Runtime
  fin_err :: "error option"
  fin_sent :: "Runtime list"
  fin_panic :: bool

definition finisher :: "'a osenv_scheme \<Rightarrow> bool \<Rightarrow> Runtime \<Rightarrow> finished" where
  "finisher env async r0 =
     (let r1 = r0\<lparr>Finished := Now_finished env\<rparr>;
          r2 = r1\<lparr>Stdout := fst (read_outOut env)\<rparr>
      in case snd (read_outOut env) of
           Some err \<Rightarrow> \<lparr>fin_r = r2, fin_err = Some err, fin_sent = [], fin_panic = False\<rparr>
         | None \<Rightarrow>
             (let r3 = r2\<lparr>Stderr := fst (read_errOut env)\<rparr>
              in case snd (read_errOut env) of
                   Some err \<Rightarrow> \<lparr>fin_r = r3, fin_err = Some err, fin_sent = [], fin_panic = False\<rparr>
                 | None \<Rightarrow>
                     (case Wait env of
                        Inl err \<Rightarrow> \<lparr>fin_r = r3, fin_err = None, fin_sent = [], fin_panic = True\<rparr>
                      | Inr s \<Rightarrow>
                          (let r4 = r3\<lparr>PID := ps_Pid s, RC := ps_ExitStatus s,
                                        UserTime := ps_UserTime s\<rparr>
                           in \<lparr>fin_r = r4, fin_err = None,
                               fin_sent = (if async then [r4] else []),
                               fin_panic = False\<rparr>))))"

text \<open>
  The credentials block of \<^verbatim>\<open>Runner\<close>: the user id for the child, if a user is named.
\<close>

definition credentials :: "'a osenv_scheme \<Rightarrow> Command \<Rightarrow> error + 32 word option" where
  "credentials env c =
     (if 0 < length (User c) then
        (if Getuid env \<noteq> 0 then Inl ErrMustBeRoot
         else (case Lookup env (User c) of
                 Inl err \<Rightarrow> Inl err
               | Inr uid_text \<Rightarrow>
                   (case ParseUint env uid_text of
                      Inl err \<Rightarrow> Inl err
                    | Inr uid \<Rightarrow> Inr (Some (of_nat uid)))))
      else Inr None)"

text \<open>
  What one call of \<^verbatim>\<open>Runner\<close> does: the error it returns, the records sent on the channel
  \<^verbatim>\<open>rt\<close> by \<^verbatim>\<open>Runner\<close> itself (the deferred send, which runs on every way out), the records
  sent by the goroutine that runs \<^verbatim>\<open>finisher\<close> in asynchronous mode, the arguments of the
  call of \<^verbatim>\<open>os.StartProcess\<close> if it is made, whether that call started the child
  (returned no error), the session counter afterwards, and whether a
  panic ends the call or the goroutine. The channel is taken to have room for what is sent.
  In asynchronous mode the deferred send and the goroutine use the record \<^verbatim>\<open>r\<close> with no
  synchronisation; the model lets the goroutine run after \<^verbatim>\<open>Runner\<close> has returned.
\<close>

record outcome =
  returned :: "error option"
  sent :: "Runtime list"
  sent_later :: "Runtime list"
  spawn :: "(string \<times> string list \<times> ProcAttr) option"
  started :: bool
  sessionID :: "64 word"
  panicked :: bool

definition early :: "Runtime \<Rightarrow> error \<Rightarrow> 64 word \<Rightarrow> outcome" where
  "early r err sid =
     \<lparr>returned = Some err, sent = [r], sent_later = [], spawn = None, started = False,
      sessionID = sid, panicked = False\<rparr>"

definition Runner :: "'a osenv_scheme \<Rightarrow> 64 word \<Rightarrow> Command \<Rightarrow> Param list \<Rightarrow> outcome" where
  "Runner env sid c params =
     (case LookPath env (Path c) of
        Inl err \<Rightarrow> early Runtime_zero err sid
      | Inr path \<Rightarrow>
     (case Render env c params of
        (text, Some err) \<Rightarrow> early Runtime_zero err sid
      | (text, None) \<Rightarrow>
     (let r1 = Runtime_zero\<lparr>Cmd := (if 0 < length text then path @ '' '' @ text else path)\<rparr>
      in case Pipe_err env of
        Some err \<Rightarrow> early r1 err sid
      | None \<Rightarrow>
     (case Pipe_out env of
        Some err \<Rightarrow> early r1 err sid
      | None \<Rightarrow>
     (case credentials env c of
        Inl err \<Rightarrow> early r1 err sid
      | Inr uid \<Rightarrow>
     (let attr = \<lparr>attr_Dir = (if 0 < length (Dir c) then Dir c else []), attr_Uid = uid\<rparr>;
          r2 = r1\<lparr>SID := snd (nextID sid)\<rparr>;
          sid' = fst (nextID sid);
          argv = Fields (Cmd r2)
      in case StartProcess env path argv attr of
        Some err \<Rightarrow>
          \<lparr>returned = Some err, sent = [r2], sent_later = [],
           spawn = Some (path, argv, attr), started = False, sessionID = sid',
           panicked = False\<rparr>
      | None \<Rightarrow>
     (let r3 = r2\<lparr>Started := Now_started env\<rparr>;
          f = finisher env (Async c) r3
      in if Async c then
           \<lparr>returned = None, sent = [r3], sent_later = fin_sent f,
            spawn = Some (path, argv, attr), started = True, sessionID = sid',
            panicked = fin_panic f\<rparr>
         else
           \<lparr>returned = fin_err f, sent = [fin_r f], sent_later = [],
            spawn = Some (path, argv, attr), started = True, sessionID = sid',
            panicked = fin_panic f\<rparr>)))))))"

text \<open>
  \<^verbatim>\<open>Run\<close> makes a channel of capacity one, calls \<^verbatim>\<open>Runner\<close> and returns the first record
  received with the error of \<^verbatim>\<open>Runner\<close>; \<open>None\<close> when a panic ends the call.
  \<^verbatim>\<open>RunAsync\<close> sets the \<^verbatim>\<open>Async\<close> flag and calls \<^verbatim>\<open>Runner\<close>.
\<close>

definition Run :: "'a osenv_scheme \<Rightarrow> 64 word \<Rightarrow> Command \<Rightarrow> Param list
    \<Rightarrow> (Runtime \<times> error option) option" where
  "Run env sid c params =
     (let out = Runner env sid c params
      in if panicked out \<and> \<not> Async c then None
         else Some (hd (sent out), returned out))"

definition RunAsync :: "'a osenv_scheme \<Rightarrow> 64 word \<Rightarrow> Command \<Rightarrow> Param list \<Rightarrow> outcome" where
  "RunAsync env sid c params = Runner env sid (c\<lparr>Async := True\<rparr>) params"

text \<open>
  A machine for the examples where every call succeeds: the command is found where it is
  looked up, the child exits with status \<open>rc\<close> and has written nothing.
\<close>

definition ok_env :: "int \<Rightarrow> osenv" where
  "ok_env rc =
     \<lparr>getenv = (\<lambda>name. []), Glob = (\<lambda>pattern. Inr []),
      LookPath = (\<lambda>file. Inr file), Pipe_err = None, Pipe_out = None, Getuid = 1000,
      Lookup = (\<lambda>name. Inl (ErrOther ''unknown user'')),
      ParseUint = (\<lambda>text. Inl (ErrOther ''invalid syntax'')),
      StartProcess = (\<lambda>path argv attr. None),
      Wait = Inr \<lparr>ps_Pid = 4711, ps_ExitStatus = rc, ps_UserTime = 0\<rparr>,
      read_outOut = ([], None), read_errOut = ([], None),
      Now_started = 1, Now_finished = 2\<rparr>"

text \<open>
  Two more inputs for the examples: the script \<^verbatim>\<open>failure\<close> of the tests, which exits with
  status 23, and a machine like \<open>ok_env\<close> on which reading the standard output of the
  child fails.
\<close>

definition failure :: Command where
  "failure = \<lparr>Path = ''./failure'', Params = [], Dir = [], User = [], Async = False\<rparr>"

definition read_fails_env :: "int \<Rightarrow> osenv" where
  "read_fails_env rc =
     (ok_env rc)\<lparr>read_outOut := ([], Some (ErrOther ''read |0: input/output error''))\<rparr>"

section \<open>Concurrent calls of the session counter\<close>

text \<open>
  \<^verbatim>\<open>nextID\<close> is two steps: the increment, made with the mutex held, and the read of
  \<^verbatim>\<open>sessionID\<close> for the \<^verbatim>\<open>return\<close>, made after \<^verbatim>\<open>mtx.Unlock()\<close>. A call has not
  started, has made its increment, or has returned a value. The state is the counter
  \<^verbatim>\<open>sessionID\<close> and the calls under way; \<open>nextID_step i\<close> lets call \<open>i\<close> make its next step (the mutex
  makes the increment one step), and a schedule is the list of the calls that move, in
  order.
\<close>

datatype call = NotStarted | Incremented | Returned "64 word"

fun nextID_step :: "nat \<Rightarrow> 64 word \<times> call list \<Rightarrow> 64 word \<times> call list" where
  "nextID_step i (sid, calls) =
     (if i < length calls then
        (case calls ! i of
           NotStarted \<Rightarrow> (sid + 1, calls[i := Incremented])
         | Incremented \<Rightarrow> (sid, calls[i := Returned sid])
         | Returned v \<Rightarrow> (sid, calls))
      else (sid, calls))"

fun nextID_schedule :: "nat list \<Rightarrow> 64 word \<times> call list \<Rightarrow> 64 word \<times> call list" where
  "nextID_schedule [] st = st"
| "nextID_schedule (i # sched) st = nextID_schedule sched (nextID_step i st)"

section \<open>Facts about the string primitives\<close>

declare brackets.simps [simp del] Replace.simps [simp del]

lemma Index_single_first: "c \<notin> set pre \<Longrightarrow> Index (pre @ c # post) [c] = Some (length pre)"
  by (induction pre) auto

lemma Index_single_None: "c \<notin> set s \<Longrightarrow> Index s [c] = None"
  by (induction s) auto

section \<open>The bracket loop\<close>

lemma brackets_no_open: "CHR ''['' \<notin> set text \<Longrightarrow> brackets text = (text, None)"
  by (subst brackets.simps) (simp add: Index_single_None)

lemma brackets_close_first:
  assumes "CHR ''['' \<notin> set pre" "CHR '']'' \<in> set pre"
  shows "brackets (pre @ ''['' @ post) = (pre @ ''['' @ post, Some ErrSyntaxError)"
proof -
  from assms(2) obtain a b where ab: "pre = a @ CHR '']'' # b" "CHR '']'' \<notin> set a"
    by (meson split_list_first)
  have s: "Index (pre @ ''['' @ post) ''['' = Some (length pre)"
    using assms(1) by (simp add: Index_single_first)
  have "Index (a @ CHR '']'' # (b @ ''['' @ post)) '']'' = Some (length a)"
    using ab(2) by (rule Index_single_first)
  then have e: "Index (pre @ ''['' @ post) '']'' = Some (length a)"
    using ab(1) by simp
  have "length a < length pre" using ab(1) by simp
  then show ?thesis
    by (subst brackets.simps) (simp only: s e option.case if_True)
qed

lemma brackets_no_close:
  assumes "CHR ''['' \<in> set text" "CHR '']'' \<notin> set text"
  shows "brackets text = (text, Some ErrSyntaxError)"
proof -
  from assms(1) obtain a b where ab: "text = a @ CHR ''['' # b" "CHR ''['' \<notin> set a"
    by (meson split_list_first)
  have s: "Index text ''['' = Some (length a)"
    using ab by (simp add: Index_single_first)
  have e: "Index text '']'' = None"
    using assms(2) by (rule Index_single_None)
  show ?thesis
    by (subst brackets.simps) (simp only: s e option.case)
qed

lemma brackets_step:
  assumes "CHR ''['' \<notin> set pre" "CHR '']'' \<notin> set pre" "CHR '']'' \<notin> set mid"
  shows "brackets (pre @ ''['' @ mid @ '']'' @ post) =
           brackets (if pmatch (pre @ ''['' @ mid @ '']'' @ post) then pre @ post
                     else pre @ mid @ post)"
proof -
  let ?t = "pre @ ''['' @ mid @ '']'' @ post"
  have s: "Index ?t ''['' = Some (length pre)"
    using assms(1) by (simp add: Index_single_first)
  have "Index ((pre @ ''['' @ mid) @ CHR '']'' # post) '']'' = Some (length (pre @ ''['' @ mid))"
    using assms(2,3) by (intro Index_single_first) simp
  then have e: "Index ?t '']'' = Some (length pre + 1 + length mid)"
    by simp
  have d: "drop (length pre + 1 + length mid + 1) ?t = post" by simp
  have t: "take (length pre) ?t = pre" by simp
  have m: "take (length pre + 1 + length mid - (length pre + 1)) (drop (length pre + 1) ?t) = mid"
    by simp
  show ?thesis
    apply (subst brackets.simps)
    apply (simp only: s e option.case d t m)
    apply simp
    done
qed

lemma optional_cong: "brackets a = brackets b \<Longrightarrow> optional env a = optional env b"
  by (simp add: optional_def)

lemma optional_no_open:
  "CHR ''['' \<notin> set text \<Longrightarrow>
     optional env text =
       (if pmatch text then (text, Some ErrIncomplete)
        else glob_loop env (globs_FindAllString (Expand (getenv env) text))
               (Expand (getenv env) text))"
  by (simp add: optional_def brackets_no_open Let_def)

section \<open>Facts about the placeholder pattern and the expansions\<close>

lemma not_upper_brace [simp]: "\<not> isUpperAZ (CHR ''}'')" "\<not> isUpperAZ (CHR ''{'')"
  by (simp_all add: isUpperAZ_def)

lemma pmatch_here_intro:
  assumes "n \<noteq> []" "\<forall>c\<in>set n. isUpperAZ c"
  shows "pmatch_here (''{{'' @ n @ ''}}'' @ post)"
proof -
  have t: "takeWhile isUpperAZ (n @ ''}}'' @ post) = n"
    using assms(2) by (simp add: takeWhile_append2)
  have d: "dropWhile isUpperAZ (n @ ''}}'' @ post) = ''}}'' @ post"
    using assms(2) by (simp add: dropWhile_append2)
  show ?thesis
    using assms(1) t d by (simp add: pmatch_here_def)
qed

lemma pmatch_here_elim:
  assumes "pmatch_here s"
  shows "\<exists>n post. s = ''{{'' @ n @ ''}}'' @ post \<and> n \<noteq> [] \<and> (\<forall>c\<in>set n. isUpperAZ c)"
proof -
  from assms obtain r where s: "s = CHR ''{'' # CHR ''{'' # r"
    and n: "takeWhile isUpperAZ r \<noteq> []" and p: "prefix ''}}'' (dropWhile isUpperAZ r)"
    by (auto simp: pmatch_here_def split: list.splits)
  from p obtain post where d: "dropWhile isUpperAZ r = ''}}'' @ post"
    by (auto simp: prefix_def)
  have "r = takeWhile isUpperAZ r @ dropWhile isUpperAZ r" by simp
  with d have "s = ''{{'' @ takeWhile isUpperAZ r @ ''}}'' @ post"
    using s by simp
  moreover have "\<forall>c\<in>set (takeWhile isUpperAZ r). isUpperAZ c"
    by (auto dest: set_takeWhileD)
  ultimately show ?thesis using n by blast
qed

lemma pmatch_append_left: "pmatch b \<Longrightarrow> pmatch (a @ b)"
  by (induction a) auto

lemma pmatch_here_append: "pmatch_here a \<Longrightarrow> pmatch_here (a @ b)"
proof -
  assume "pmatch_here a"
  then obtain n post where "a = ''{{'' @ n @ ''}}'' @ post" "n \<noteq> []" "\<forall>c\<in>set n. isUpperAZ c"
    using pmatch_here_elim by blast
  then show ?thesis
    using pmatch_here_intro [of n "post @ b"] by simp
qed

lemma pmatch_append_right: "pmatch a \<Longrightarrow> pmatch (a @ b)"
proof (induction a)
  case Nil
  then show ?case by simp
next
  case (Cons c a)
  then show ?case using pmatch_here_append [of "c # a" b] by auto
qed

lemma pmatch_iff:
  "pmatch s \<longleftrightarrow>
     (\<exists>pre n post. s = pre @ ''{{'' @ n @ ''}}'' @ post \<and> n \<noteq> [] \<and> (\<forall>c\<in>set n. isUpperAZ c))"
proof
  assume "pmatch s"
  then show "\<exists>pre n post. s = pre @ ''{{'' @ n @ ''}}'' @ post \<and> n \<noteq> [] \<and> (\<forall>c\<in>set n. isUpperAZ c)"
  proof (induction s)
    case Nil
    then show ?case by simp
  next
    case (Cons c s)
    show ?case
    proof (cases "pmatch_here (c # s)")
      case True
      then obtain n post where "c # s = [] @ ''{{'' @ n @ ''}}'' @ post" "n \<noteq> []" "\<forall>c\<in>set n. isUpperAZ c"
        using pmatch_here_elim by fastforce
      then show ?thesis by blast
    next
      case False
      with Cons.prems have "pmatch s" by simp
      with Cons.IH obtain pre n post where
        "s = pre @ ''{{'' @ n @ ''}}'' @ post" "n \<noteq> []" "\<forall>c\<in>set n. isUpperAZ c" by blast
      then have "c # s = (c # pre) @ ''{{'' @ n @ ''}}'' @ post" by simp
      with \<open>n \<noteq> []\<close> \<open>\<forall>c\<in>set n. isUpperAZ c\<close> show ?thesis by blast
    qed
  qed
next
  assume "\<exists>pre n post. s = pre @ ''{{'' @ n @ ''}}'' @ post \<and> n \<noteq> [] \<and> (\<forall>c\<in>set n. isUpperAZ c)"
  then obtain pre n post where s: "s = pre @ ''{{'' @ n @ ''}}'' @ post"
    and n: "n \<noteq> []" "\<forall>c\<in>set n. isUpperAZ c" by blast
  have "pmatch (''{{'' @ n @ ''}}'' @ post)"
    using pmatch_here_intro [OF n, of post] by simp
  then show "pmatch s" unfolding s by (rule pmatch_append_left)
qed

lemma pmatch_no_open: "CHR ''{'' \<notin> set s \<Longrightarrow> \<not> pmatch s"
  by (induction s) (auto simp: pmatch_here_def split: list.splits)

lemma pmatch_skip: "CHR ''{'' \<notin> set a \<Longrightarrow> pmatch (a @ s) = pmatch s"
  by (induction a) (auto simp: pmatch_here_def split: list.splits)

lemma pmatch_other_name:
  assumes n: "n = [] \<or> (\<exists>c\<in>set n. \<not> isUpperAZ c)"
    and nb: "CHR ''{'' \<notin> set n" "CHR ''}'' \<notin> set n"
    and a: "CHR ''{'' \<notin> set a" and b: "CHR ''{'' \<notin> set b"
  shows "\<not> pmatch (a @ ''{{'' @ n @ ''}}'' @ b)"
proof -
  have h0: "\<not> pmatch_here (''{{'' @ n @ ''}}'' @ b)"
  proof
    assume "pmatch_here (''{{'' @ n @ ''}}'' @ b)"
    then have t: "takeWhile isUpperAZ (n @ ''}}'' @ b) \<noteq> []"
      and p: "prefix ''}}'' (dropWhile isUpperAZ (n @ ''}}'' @ b))"
      by (simp_all add: pmatch_here_def)
    from n show False
    proof
      assume "n = []"
      with t show False by simp
    next
      assume "\<exists>c\<in>set n. \<not> isUpperAZ c"
      then have "dropWhile isUpperAZ (n @ ''}}'' @ b) = dropWhile isUpperAZ n @ ''}}'' @ b"
        by auto
      moreover from \<open>\<exists>c\<in>set n. \<not> isUpperAZ c\<close> have "dropWhile isUpperAZ n \<noteq> []" by auto
      then obtain c r where cr: "dropWhile isUpperAZ n = c # r" by (cases "dropWhile isUpperAZ n") auto
      moreover have "c \<in> set n" using cr set_dropWhileD [of c isUpperAZ n] by simp
      ultimately show False using p nb(2) by auto
    qed
  qed
  have h1: "\<not> pmatch_here (''{'' @ n @ ''}}'' @ b)"
    using nb(1) by (cases n) (auto simp: pmatch_here_def)
  have h2: "\<not> pmatch (n @ ''}}'' @ b)"
    using nb(1) b by (intro pmatch_no_open) simp
  have "\<not> pmatch (''{{'' @ n @ ''}}'' @ b)"
    using h0 h1 h2 by simp
  then show ?thesis using a by (simp add: pmatch_skip)
qed

lemma Expand_no_dollar: "CHR ''$'' \<notin> set s \<Longrightarrow> Expand mapping s = s"
  by (induction s) auto

lemma globs_scan_no_star: "CHR ''*'' \<notin> set s \<Longrightarrow> globs_scan acc s = []"
  by (induction s arbitrary: acc) auto

lemma optional_plain:
  assumes "CHR ''['' \<notin> set text" "\<not> pmatch text" "CHR ''$'' \<notin> set text" "CHR ''*'' \<notin> set text"
  shows "optional env text = (text, None)"
  using assms
  by (simp add: optional_no_open Expand_no_dollar globs_FindAllString_def globs_scan_no_star)

section \<open>Templates with well-formed brackets\<close>

lemma fragments_text_append: "fragments_text (a @ x) fs = a @ fragments_text x fs"
  by (cases fs) auto

lemma outside_text_append: "outside_text (a @ x) fs = a @ outside_text x fs"
  by (cases fs) auto

lemma pmatch_fragments_text:
  "pmatch x0 \<or> (\<exists>(m, x)\<in>set fs. pmatch m \<or> pmatch x) \<Longrightarrow> pmatch (fragments_text x0 fs)"
proof (induction fs arbitrary: x0)
  case Nil
  then show ?case by simp
next
  case (Cons f fs)
  obtain m x where f: "f = (m, x)" by (cases f)
  from Cons.prems f consider "pmatch x0" | "pmatch m" | "pmatch x"
    | "\<exists>(m, x)\<in>set fs. pmatch m \<or> pmatch x" by auto
  then show ?case
  proof cases
    case 1
    then show ?thesis unfolding f fragments_text.simps by (rule pmatch_append_right)
  next
    case 2
    then have "pmatch (m @ '']'' @ fragments_text x fs)" by (rule pmatch_append_right)
    then have "pmatch ((x0 @ ''['') @ m @ '']'' @ fragments_text x fs)"
      by (rule pmatch_append_left)
    then have "pmatch (x0 @ ''['' @ m @ '']'' @ fragments_text x fs)"
      by simp
    then show ?thesis unfolding f by simp
  next
    case 3
    then have "pmatch (fragments_text x fs)" using Cons.IH by blast
    then have "pmatch ((x0 @ ''['' @ m @ '']'') @ fragments_text x fs)"
      by (rule pmatch_append_left)
    then have "pmatch (x0 @ ''['' @ m @ '']'' @ fragments_text x fs)"
      by simp
    then show ?thesis unfolding f by simp
  next
    case 4
    then have "pmatch (fragments_text x fs)" using Cons.IH by blast
    then have "pmatch ((x0 @ ''['' @ m @ '']'') @ fragments_text x fs)"
      by (rule pmatch_append_left)
    then have "pmatch (x0 @ ''['' @ m @ '']'' @ fragments_text x fs)"
      by simp
    then show ?thesis unfolding f by simp
  qed
qed


lemma brackets_delete_all:
  assumes "well_bracketed x0 fs"
    and "fs \<noteq> [] \<longrightarrow> pmatch x0 \<or> (\<exists>(m, x)\<in>set fs. pmatch x) \<or> pmatch (fst (last fs))"
  shows "brackets (fragments_text x0 fs) = (outside_text x0 fs, None)"
  using assms
proof (induction fs arbitrary: x0)
  case Nil
  then show ?case by (simp add: well_bracketed_def no_bracket_def brackets_no_open)
next
  case (Cons f fs)
  obtain m x where f: "f = (m, x)" by (cases f)
  from Cons.prems(1) f have wb: "CHR ''['' \<notin> set x0" "CHR '']'' \<notin> set x0" "CHR '']'' \<notin> set m"
    "no_bracket x" "\<forall>(m, x)\<in>set fs. CHR '']'' \<notin> set m \<and> no_bracket x"
    by (auto simp: well_bracketed_def no_bracket_def)
  let ?rest = "fragments_text x fs"
  have q: "pmatch x0 \<or> (\<exists>(m, x)\<in>set (f # fs). pmatch x) \<or> pmatch (fst (last (f # fs)))"
    using Cons.prems(2) by simp
  have "pmatch x0 \<or> (\<exists>(m, x)\<in>set (f # fs). pmatch m \<or> pmatch x)"
  proof -
    obtain lm lx where l: "last (f # fs) = (lm, lx)" by (cases "last (f # fs)")
    have "last (f # fs) \<in> set (f # fs)" by (rule last_in_set) simp
    with l have "(lm, lx) \<in> set (f # fs)" by simp
    moreover have "pmatch (fst (last (f # fs))) \<Longrightarrow> pmatch lm" using l by simp
    ultimately show ?thesis using q by fastforce
  qed
  then have pm: "pmatch (x0 @ ''['' @ m @ '']'' @ ?rest)"
    using pmatch_fragments_text [of x0 "f # fs"] f by simp
  have "brackets (x0 @ ''['' @ m @ '']'' @ ?rest)
          = brackets (if pmatch (x0 @ ''['' @ m @ '']'' @ ?rest) then x0 @ ?rest else x0 @ m @ ?rest)"
    using wb(1,2,3) by (rule brackets_step)
  with pm have step: "brackets (fragments_text x0 (f # fs)) = brackets (fragments_text (x0 @ x) fs)"
    by (simp add: f fragments_text_append)
  have wb': "well_bracketed (x0 @ x) fs"
    using wb by (auto simp: well_bracketed_def no_bracket_def)
  have q': "fs \<noteq> [] \<longrightarrow> pmatch (x0 @ x) \<or> (\<exists>(m, x)\<in>set fs. pmatch x) \<or> pmatch (fst (last fs))"
  proof
    assume ne: "fs \<noteq> []"
    from q f consider "pmatch x0" | "pmatch x" | "\<exists>(m, x)\<in>set fs. pmatch x"
      | "pmatch (fst (last (f # fs)))" by auto
    then show "pmatch (x0 @ x) \<or> (\<exists>(m, x)\<in>set fs. pmatch x) \<or> pmatch (fst (last fs))"
    proof cases
      case 1
      then show ?thesis by (simp add: pmatch_append_right)
    next
      case 2
      then show ?thesis by (simp add: pmatch_append_left)
    next
      case 3
      then show ?thesis by simp
    next
      case 4
      then show ?thesis using ne by simp
    qed
  qed
  have "brackets (fragments_text (x0 @ x) fs) = (outside_text (x0 @ x) fs, None)"
    using wb' q' by (rule Cons.IH)
  with step show ?case by (simp add: f outside_text_append)
qed


lemma optional_fragment_dropped:
  assumes "well_bracketed x0 fs" and "fs \<noteq> []" and "pmatch (fst (last fs))"
    and "\<not> pmatch (outside_text x0 fs)"
  shows "optional env (fragments_text x0 fs) =
           glob_loop env (globs_FindAllString (Expand (getenv env) (outside_text x0 fs)))
             (Expand (getenv env) (outside_text x0 fs))"
proof -
  have "brackets (fragments_text x0 fs) = (outside_text x0 fs, None)"
    using assms(1,3) by (intro brackets_delete_all) auto
  then show ?thesis using assms(4) by (simp add: optional_def Let_def)
qed

section \<open>Replacing all occurrences\<close>

lemma Index_None: "\<not> sublist old s \<Longrightarrow> Index s old = None"
proof (induction s)
  case Nil
  then show ?case by auto
next
  case (Cons c s)
  have "\<not> prefix old (c # s)" using Cons.prems by (auto dest: prefix_imp_sublist)
  moreover have "\<not> sublist old s" using Cons.prems by (auto simp: sublist_Cons_right)
  ultimately show ?case using Cons.IH by simp
qed

lemma prefix_short: "prefix xs (ys @ zs) \<Longrightarrow> length xs \<le> length ys \<Longrightarrow> prefix xs ys"
  by (auto simp: prefix_append)

lemma Index_at:
  assumes "old \<noteq> []" "\<not> sublist old (pre @ butlast old)"
  shows "Index (pre @ old @ post) old = Some (length pre)"
  using assms(2)
proof (induction pre)
  case Nil
  from assms(1) obtain c s where cs: "old @ post = c # s" by (cases old) auto
  have "prefix old (old @ post)" by simp
  then show ?case unfolding append_Nil cs by simp
next
  case (Cons a pre)
  have np: "\<not> prefix old (a # pre @ old @ post)"
  proof
    assume p: "prefix old (a # pre @ old @ post)"
    have e: "a # pre @ old @ post = ((a # pre) @ butlast old) @ [last old] @ post"
      using assms(1) by (metis append.assoc append_Cons append_butlast_last_id)
    have "prefix old (((a # pre) @ butlast old) @ [last old] @ post)"
      using p unfolding e .
    moreover have "length old \<le> length ((a # pre) @ butlast old)" by simp
    ultimately have "prefix old ((a # pre) @ butlast old)" by (rule prefix_short)
    then show False using Cons.prems by (auto dest: prefix_imp_sublist)
  qed
  have "\<not> sublist old (pre @ butlast old)"
    using Cons.prems by (auto simp: sublist_Cons_right)
  then have "Index (pre @ old @ post) old = Some (length pre)" by (rule Cons.IH)
  with np show ?case by simp
qed

lemma Replace_none: "old \<noteq> [] \<Longrightarrow> \<not> sublist old s \<Longrightarrow> Replace s old new = s"
  by (subst Replace.simps) (simp add: Index_None)

lemma Replace_at:
  assumes "old \<noteq> []" "\<not> sublist old (pre @ butlast old)"
  shows "Replace (pre @ old @ post) old new = pre @ new @ Replace post old new"
  using assms by (subst Replace.simps) (simp add: Index_at)

lemma Replace_Join:
  assumes "old \<noteq> []" "segs \<noteq> []"
    and "\<forall>x\<in>set (butlast segs). \<not> sublist old (x @ butlast old)"
    and "\<not> sublist old (last segs)"
  shows "Replace (Join segs old) old new = Join segs new"
  using assms(2,3,4)
proof (induction segs)
  case Nil
  then show ?case by simp
next
  case (Cons a segs)
  show ?case
  proof (cases segs)
    case Nil
    with Cons.prems show ?thesis using assms(1) by (simp add: Replace_none)
  next
    case (Cons b as)
    with Cons.prems have "\<forall>x\<in>set (butlast segs). \<not> sublist old (x @ butlast old)"
      "\<not> sublist old (last segs)" "segs \<noteq> []" by auto
    then have "Replace (Join segs old) old new = Join segs new"
      using Cons.IH by blast
    moreover have "\<not> sublist old (a @ butlast old)" using Cons.prems Cons by simp
    ultimately show ?thesis using assms(1) Cons by (simp add: Replace_at)
  qed
qed

lemma Render_loop_bare:
  "\<forall>p\<in>set ps. fst p = [] \<Longrightarrow> Render_loop t ps = t @ concat (map (\<lambda>p. '' '' @ snd p) ps)"
  by (induction ps arbitrary: t) auto

section \<open>The glob pattern and the glob loop\<close>

lemma star_not_class [simp]: "\<not> isWordClass (CHR ''*'')"
  by (simp add: isWordClass_def)

lemma globs_scan_skip:
  "CHR ''*'' \<notin> set pre \<Longrightarrow> pre \<noteq> [] \<Longrightarrow> \<not> isWordClass (last pre) \<Longrightarrow>
     globs_scan acc (pre @ rest) = globs_scan [] rest"
proof (induction pre arbitrary: acc)
  case Nil
  then show ?case by simp
next
  case (Cons p pre)
  show ?case
  proof (cases "pre = []")
    case True
    with Cons.prems show ?thesis by simp
  next
    case False
    with Cons.prems have "globs_scan acc' (pre @ rest) = globs_scan [] rest" for acc'
      by (intro Cons.IH) auto
    moreover have "p \<noteq> CHR ''*''" using Cons.prems by auto
    ultimately show ?thesis by simp
  qed
qed

lemma globs_scan_class:
  "\<forall>c\<in>set a. isWordClass c \<Longrightarrow> globs_scan acc (a @ rest) = globs_scan (acc @ a) rest"
proof (induction a arbitrary: acc)
  case Nil
  then show ?case by simp
next
  case (Cons c a)
  then have "c \<noteq> CHR ''*''" by auto
  with Cons show ?case by simp
qed

lemma takeWhile_class:
  "\<forall>c\<in>set b. isWordClass c \<Longrightarrow> post = [] \<or> \<not> isWordClass (hd post) \<Longrightarrow>
     takeWhile isWordClass (b @ post) = b \<and> dropWhile isWordClass (b @ post) = post"
  by (cases post) (auto simp: takeWhile_append2 dropWhile_append2)

lemma globs_single:
  assumes "\<forall>c\<in>set a. isWordClass c" "\<forall>c\<in>set b. isWordClass c"
    and "CHR ''*'' \<notin> set pre" "CHR ''*'' \<notin> set post"
    and "pre = [] \<or> \<not> isWordClass (last pre)" "post = [] \<or> \<not> isWordClass (hd post)"
  shows "globs_FindAllString (pre @ a @ ''*'' @ b @ post) = [a @ ''*'' @ b]"
proof -
  have 1: "globs_scan [] (pre @ a @ ''*'' @ b @ post) = globs_scan [] (a @ ''*'' @ b @ post)"
    using assms(3,5) by (cases "pre = []") (auto simp: globs_scan_skip)
  have 2: "globs_scan [] (a @ ''*'' @ b @ post) = globs_scan a (''*'' @ b @ post)"
    using assms(1) globs_scan_class [of a "[]"] by simp
  have 3: "globs_scan a (''*'' @ b @ post) = [a @ ''*'' @ b]"
    using takeWhile_class [OF assms(2,6)] assms(4) by (simp add: globs_scan_no_star)
  show ?thesis unfolding globs_FindAllString_def 1 2 3 ..
qed

lemma Index_token:
  assumes "c \<notin> set pre" "c \<notin> set a"
  shows "Index (pre @ (a @ c # b) @ post) (a @ c # b) = Some (length pre)"
  using assms(1)
proof (induction pre)
  case Nil
  obtain d s where ds: "(a @ c # b) @ post = d # s" by (cases a) auto
  have "prefix (a @ c # b) ((a @ c # b) @ post)" by simp
  then show ?case unfolding append_Nil ds by simp
next
  case (Cons p pre)
  have np: "\<not> prefix (a @ c # b) (p # pre @ (a @ c # b) @ post)"
  proof
    assume "prefix (a @ c # b) (p # pre @ (a @ c # b) @ post)"
    then obtain zs where zs: "p # pre @ (a @ c # b) @ post = (a @ c # b) @ zs"
      by (auto simp: prefix_def)
    have l: "length a < length (p # pre @ a)" by simp
    then have "(p # pre @ a) ! length a \<in> set (p # pre @ a)" by (rule nth_mem)
    moreover have "((p # pre @ a) @ c # b @ post) ! length a = (p # pre @ a) ! length a"
      using l by (simp only: nth_append if_True)
    ultimately have "((p # pre @ a) @ c # b @ post) ! length a \<in> set (p # pre @ a)"
      by simp
    moreover have "((a @ c # b) @ zs) ! length a = c" by (simp add: nth_append)
    ultimately have "c \<in> set (p # pre @ a)" using zs by simp
    then show False using Cons.prems assms(2) by auto
  qed
  have "Index (pre @ (a @ c # b) @ post) (a @ c # b) = Some (length pre)"
    using Cons by simp
  with np show ?case by simp
qed

lemma Replace_token:
  assumes "c \<notin> set pre" "c \<notin> set a" "c \<notin> set post"
  shows "Replace (pre @ (a @ c # b) @ post) (a @ c # b) new = pre @ new @ post"
proof -
  have "\<not> sublist (a @ c # b) post"
    using assms(3) by (auto dest: set_mono_sublist)
  then have "Replace post (a @ c # b) new = post"
    by (intro Replace_none) auto
  moreover have "Replace (pre @ (a @ c # b) @ post) (a @ c # b) new
      = pre @ new @ Replace post (a @ c # b) new"
    using Index_token [OF assms(1,2), of b post]
    by (subst Replace.simps) simp
  ultimately show ?thesis by simp
qed

lemma glob_loop_no_file:
  "g \<in> set gs \<Longrightarrow> Glob env g = Inr [] \<Longrightarrow> \<forall>h\<in>set gs. \<exists>fs. Glob env h = Inr fs \<Longrightarrow>
     snd (glob_loop env gs t) = Some ErrNoSuchFile"
proof (induction gs arbitrary: t)
  case Nil
  then show ?case by simp
next
  case (Cons h gs)
  from Cons.prems(3) obtain fs where fs: "Glob env h = Inr fs" by auto
  show ?case
  proof (cases "fs = []")
    case True
    with fs show ?thesis by simp
  next
    case False
    with fs Cons.prems(2) have "g \<noteq> h" by auto
    with Cons.prems have "snd (glob_loop env gs t') = Some ErrNoSuchFile" for t'
      by (intro Cons.IH) auto
    with fs False show ?thesis by simp
  qed
qed

section \<open>Facts about the runner\<close>

lemma decodeRune_nonspace:
  "decodeRune (c # s) = (r, w) \<Longrightarrow> \<not> isSpace r \<Longrightarrow> \<forall>ch\<in>set (take w (c # s)). \<not> isSpaceByte ch"
  apply (simp add: Let_def isSpaceByte_def cont_def split: if_splits list.splits)
  apply (auto simp: isSpace_def take_Suc_conv_app_nth numeral_2_eq_2 numeral_3_eq_3)
  done

lemma Fields_loop_fields:
  "\<forall>ch\<in>set cur. \<not> isSpaceByte ch \<Longrightarrow>
     \<forall>a\<in>set (Fields_loop cur s). a \<noteq> [] \<and> (\<forall>ch\<in>set a. \<not> isSpaceByte ch)"
proof (induction cur s rule: Fields_loop.induct)
  case (1 cur)
  then show ?case by simp
next
  case (2 cur c s)
  obtain r w where rw: "decodeRune (c # s) = (r, w)" by (cases "decodeRune (c # s)")
  show ?case
  proof (cases "isSpace r")
    case True
    have "\<forall>a\<in>set (Fields_loop [] (drop w (c # s))). a \<noteq> [] \<and> (\<forall>ch\<in>set a. \<not> isSpaceByte ch)"
      using "2.IH"(1) [OF rw [symmetric] True] by simp
    then show ?thesis
      using rw True "2.prems" by (auto simp del: decodeRune.simps)
  next
    case False
    have "\<forall>ch\<in>set (take w (c # s)). \<not> isSpaceByte ch"
      using rw False by (rule decodeRune_nonspace)
    then have "\<forall>ch\<in>set (cur @ take w (c # s)). \<not> isSpaceByte ch"
      using "2.prems" by auto
    then have "\<forall>a\<in>set (Fields_loop (cur @ take w (c # s)) (drop w (c # s))).
                 a \<noteq> [] \<and> (\<forall>ch\<in>set a. \<not> isSpaceByte ch)"
      using "2.IH"(2) [OF rw [symmetric] False] by simp
    then show ?thesis
      using rw False by (simp del: decodeRune.simps)
  qed
qed

lemma Fields_fields: "\<forall>a\<in>set (Fields s). a \<noteq> [] \<and> (\<forall>ch\<in>set a. \<not> isSpaceByte ch)"
  unfolding Fields_def by (rule Fields_loop_fields) simp

lemma Runner_spawn:
  assumes "spawn (Runner env sid c ps) = Some (path, argv, attr)"
  shows "LookPath env (Path c) = Inr path \<and> snd (Render env c ps) = None
       \<and> argv = Fields (if 0 < length (fst (Render env c ps))
                        then path @ '' '' @ fst (Render env c ps) else path)"
  using assms
  by (auto simp: Runner_def early_def Let_def
           split: sum.splits option.splits prod.splits if_splits)


lemma Render_Async: "Render env (c\<lparr>Async := b\<rparr>) ps = Render env c ps"
  by (simp add: Render_def)

lemma Runner_started:
  assumes "started (Runner env sid c ps)"
  obtains path rendered uid where
    "LookPath env (Path c) = Inr path" "Render env c ps = (rendered, None)"
    "Pipe_err env = None" "Pipe_out env = None" "credentials env c = Inr uid"
    "StartProcess env path
       (Fields (if 0 < length rendered then path @ '' '' @ rendered else path))
       \<lparr>attr_Dir = (if 0 < length (Dir c) then Dir c else []), attr_Uid = uid\<rparr> = None"
proof -
  obtain path where 1: "LookPath env (Path c) = Inr path"
    using assms by (cases "LookPath env (Path c)") (simp_all add: Runner_def early_def)
  obtain rendered e where re: "Render env c ps = (rendered, e)" by (cases "Render env c ps")
  have 2: "Render env c ps = (rendered, None)"
    using assms 1 re by (cases e) (simp_all add: Runner_def early_def)
  have 3: "Pipe_err env = None"
    using assms 1 2 by (cases "Pipe_err env") (simp_all add: Runner_def early_def)
  have 4: "Pipe_out env = None"
    using assms 1 2 3 by (cases "Pipe_out env") (simp_all add: Runner_def early_def)
  obtain uid where 5: "credentials env c = Inr uid"
    using assms 1 2 3 4 by (cases "credentials env c") (simp_all add: Runner_def early_def)
  have 6: "StartProcess env path
       (Fields (if 0 < length rendered then path @ '' '' @ rendered else path))
       \<lparr>attr_Dir = (if 0 < length (Dir c) then Dir c else []), attr_Uid = uid\<rparr> = None"
    using assms 1 2 3 4 5
    by (cases "StartProcess env path
       (Fields (if 0 < length rendered then path @ '' '' @ rendered else path))
       \<lparr>attr_Dir = (if 0 < length (Dir c) then Dir c else []), attr_Uid = uid\<rparr>")
       (simp_all add: Runner_def Let_def)
  from 1 2 3 4 5 6 show ?thesis by (rule that)
qed

lemma Run_started:
  assumes "started (Runner env sid c ps)" "\<not> Async c" "Wait env = Inr s"
    "snd (read_outOut env) = None" "snd (read_errOut env) = None"
  shows "\<exists>r. Run env sid c ps = Some (r, None) \<and> RC r = ps_ExitStatus s"
proof -
  from assms(1) obtain path rendered uid where
    "LookPath env (Path c) = Inr path" "Render env c ps = (rendered, None)"
    "Pipe_err env = None" "Pipe_out env = None" "credentials env c = Inr uid"
    "StartProcess env path
       (Fields (if 0 < length rendered then path @ '' '' @ rendered else path))
       \<lparr>attr_Dir = (if 0 < length (Dir c) then Dir c else []), attr_Uid = uid\<rparr> = None"
    by (rule Runner_started)
  then show ?thesis
    using assms(2-5) by (simp add: Run_def Runner_def finisher_def Let_def)
qed



lemma ok_env_simps:
  "LookPath (ok_env rc) = Inr" "Pipe_err (ok_env rc) = None" "Pipe_out (ok_env rc) = None"
  "StartProcess (ok_env rc) path argv attr = None"
  "Wait (ok_env rc) = Inr \<lparr>ps_Pid = 4711, ps_ExitStatus = rc, ps_UserTime = 0\<rparr>"
  "read_outOut (ok_env rc) = ([], None)" "read_errOut (ok_env rc) = ([], None)"
  "Now_started (ok_env rc) = 1" "Now_finished (ok_env rc) = 2"
  by (simp_all add: ok_env_def)

lemma read_fails_env_simps:
  "LookPath (read_fails_env rc) = Inr" "Pipe_err (read_fails_env rc) = None"
  "Pipe_out (read_fails_env rc) = None"
  "StartProcess (read_fails_env rc) path argv attr = None"
  "Wait (read_fails_env rc) = Inr \<lparr>ps_Pid = 4711, ps_ExitStatus = rc, ps_UserTime = 0\<rparr>"
  "read_outOut (read_fails_env rc) = ([], Some (ErrOther ''read |0: input/output error''))"
  "read_errOut (read_fails_env rc) = ([], None)"
  "Now_started (read_fails_env rc) = 1" "Now_finished (read_fails_env rc) = 2"
  by (simp_all add: read_fails_env_def ok_env_def)

lemma command_simps:
  "Path (template ps) = ''/bin/ls''" "Params (template ps) = ps" "Dir (template ps) = []"
  "User (template ps) = []" "Async (template ps) = False"
  "Path failure = ''./failure''" "Params failure = []" "Dir failure = []"
  "User failure = []" "Async failure = False"
  by (simp_all add: template_def failure_def)

lemmas Runner_eval = Runner_def Run_def RunAsync_def finisher_def credentials_def nextID_def
  Runtime_zero_def early_def Let_def ok_env_simps read_fails_env_simps command_simps

text \<open>
  Alone, a call returns the value it has just written; the deferred send of \<^verbatim>\<open>Runner\<close>
  runs exactly once; and an asynchronous invocation that goes through sends twice.
\<close>

lemma nextID_schedule_alone:
  "nextID_schedule [0, 0] (sid, [NotStarted]) = (fst (nextID sid), [Returned (snd (nextID sid))])"
  by (simp add: nextID_def)

lemma Runner_sent_once: "length (sent (Runner env sid c ps)) = 1"
  by (simp add: Runner_def early_def Let_def split: sum.splits option.splits prod.splits)

lemma RunAsync_two_sends:
  assumes "started (RunAsync env sid c ps)" "Wait env = Inr s"
    "snd (read_outOut env) = None" "snd (read_errOut env) = None"
  shows "length (sent (RunAsync env sid c ps) @ sent_later (RunAsync env sid c ps)) = 2"
proof -
  let ?c = "c\<lparr>Async := True\<rparr>"
  from assms(1) have "started (Runner env sid ?c ps)" by (simp add: RunAsync_def)
  then obtain path rendered uid where
    "LookPath env (Path ?c) = Inr path" "Render env ?c ps = (rendered, None)"
    "Pipe_err env = None" "Pipe_out env = None" "credentials env ?c = Inr uid"
    "StartProcess env path
       (Fields (if 0 < length rendered then path @ '' '' @ rendered else path))
       \<lparr>attr_Dir = (if 0 < length (Dir ?c) then Dir ?c else []), attr_Uid = uid\<rparr> = None"
    by (rule Runner_started)
  then show ?thesis
    using assms(2-4) by (simp add: RunAsync_def Runner_def finisher_def Let_def)
qed

text \<open>
  Every text is segments joined by the occurrences that the search from the left finds.
\<close>

lemma Index_Some_split:
  assumes "old \<noteq> []" "Index s old = Some i"
  shows "s = take i s @ old @ drop (i + length old) s
       \<and> \<not> sublist old (take i s @ butlast old)"
  using assms(2)
proof (induction s arbitrary: i)
  case Nil
  with assms(1) show ?case by simp
next
  case (Cons c s)
  show ?case
  proof (cases "prefix old (c # s)")
    case True
    with Cons.prems have i: "i = 0" by simp
    from True obtain zs where zs: "c # s = old @ zs" by (auto simp: prefix_def)
    have "length (butlast old) < length old" using assms(1) by simp
    then have "\<not> sublist old (butlast old)"
      using sublist_length_le [of old "butlast old"] by auto
    then show ?thesis unfolding i zs by simp
  next
    case False
    with Cons.prems obtain j where j: "Index s old = Some j" "i = Suc j" by auto
    from Cons.IH [OF j(1)] have s: "s = take j s @ old @ drop (j + length old) s"
      and n: "\<not> sublist old (take j s @ butlast old)" by simp_all
    have "\<not> prefix old (c # take j s @ butlast old)"
    proof
      assume "prefix old (c # take j s @ butlast old)"
      then have "prefix old ((c # take j s @ butlast old) @ [last old] @ drop (j + length old) s)"
        by (rule prefix_prefix)
      moreover have "(c # take j s @ butlast old) @ [last old] @ drop (j + length old) s
          = c # take j s @ old @ drop (j + length old) s"
        using assms(1) by (metis append.assoc append_Cons append_butlast_last_id)
      ultimately have "prefix old (c # s)" using s by simp
      with False show False ..
    qed
    with n have "\<not> sublist old (c # take j s @ butlast old)"
      by (simp add: sublist_Cons_right)
    moreover have "c # s = take (Suc j) (c # s) @ old @ drop (Suc j + length old) (c # s)"
      using s by simp
    ultimately show ?thesis unfolding j(2) by simp
  qed
qed

lemma Index_Some_sublist: "sublist old s \<Longrightarrow> \<exists>i. Index s old = Some i"
proof (induction s)
  case Nil
  then show ?case by simp
next
  case (Cons c s)
  then show ?case by (cases "prefix old (c # s)") (auto simp: sublist_Cons_right)
qed

lemma Join_Cons: "segs \<noteq> [] \<Longrightarrow> Join (a # segs) sep = a @ sep @ Join segs sep"
  by (cases segs) simp_all

lemma occurrences_split:
  assumes "old \<noteq> []"
  shows "\<exists>segs. segs \<noteq> [] \<and> s = Join segs old
           \<and> (\<forall>x\<in>set (butlast segs). \<not> sublist old (x @ butlast old))
           \<and> \<not> sublist old (last segs)"
proof (induction s rule: length_induct)
  case (1 s)
  show ?case
  proof (cases "sublist old s")
    case False
    then have "[s] \<noteq> [] \<and> s = Join [s] old
           \<and> (\<forall>x\<in>set (butlast [s]). \<not> sublist old (x @ butlast old))
           \<and> \<not> sublist old (last [s])" by simp
    then show ?thesis by blast
  next
    case True
    then obtain i where i: "Index s old = Some i" using Index_Some_sublist by blast
    let ?a = "take i s" and ?r = "drop (i + length old) s"
    from Index_Some_split [OF assms i]
    have s: "s = ?a @ old @ ?r" and n: "\<not> sublist old (?a @ butlast old)" by simp_all
    have "length ?r < length s"
      using Index_bound [OF i] assms by (cases old) auto
    with 1 obtain segs where segs: "segs \<noteq> []" "?r = Join segs old"
      "\<forall>x\<in>set (butlast segs). \<not> sublist old (x @ butlast old)" "\<not> sublist old (last segs)"
      by blast
    have "s = Join (?a # segs) old"
      using s segs(1,2) by (simp add: Join_Cons)
    moreover have "\<forall>x\<in>set (butlast (?a # segs)). \<not> sublist old (x @ butlast old)"
      using segs(1,3) n by simp
    moreover have "\<not> sublist old (last (?a # segs))" using segs(1,4) by simp
    ultimately show ?thesis by blast
  qed
qed

section \<open>The rounds of the bracket loop on well-formed templates\<close>









lemma brackets_resolved:
  assumes "no_bracket x0" "flat_fragments fs"
  shows "brackets (fragments_text x0 fs) = (resolved_text x0 fs, None)"
  using assms
proof (induction fs arbitrary: x0)
  case Nil
  then show ?case by (simp add: no_bracket_def brackets_no_open)
next
  case (Cons f fs)
  obtain m x where f: "f = (m, x)" by (cases f)
  from Cons.prems f have nb: "CHR ''['' \<notin> set x0" "CHR '']'' \<notin> set x0" "CHR '']'' \<notin> set m"
    "no_bracket m" "no_bracket x" "flat_fragments fs"
    by (auto simp: flat_fragments_def no_bracket_def)
  let ?rest = "fragments_text x fs"
  let ?t = "x0 @ ''['' @ m @ '']'' @ ?rest"
  have step: "brackets ?t = brackets (if pmatch ?t then x0 @ ?rest else x0 @ m @ ?rest)"
    using nb(1,2,3) by (rule brackets_step)
  show ?case
  proof (cases "pmatch ?t")
    case True
    have "no_bracket (x0 @ x)" using Cons.prems(1) nb(5) by (simp add: no_bracket_def)
    then have "brackets (fragments_text (x0 @ x) fs) = (resolved_text (x0 @ x) fs, None)"
      using nb(6) by (rule Cons.IH)
    with step True show ?thesis by (simp add: f fragments_text_append)
  next
    case False
    have "no_bracket (x0 @ m @ x)" using Cons.prems(1) nb(4,5) by (simp add: no_bracket_def)
    then have "brackets (fragments_text (x0 @ m @ x) fs) = (resolved_text (x0 @ m @ x) fs, None)"
      using nb(6) by (rule Cons.IH)
    moreover have "fragments_text (x0 @ m @ x) fs = x0 @ m @ ?rest"
      using fragments_text_append [of "x0 @ m" x fs] by simp
    ultimately show ?thesis using step False by (simp add: f)
  qed
qed






text \<open>
  The glob stage on a text with a single star, no bracket, no dollar sign and no
  placeholder left, and on any text when one of the matches has no path.
\<close>

lemma optional_glob_token:
  "((\<forall>c\<in>set a. isWordClass c) \<and> (\<forall>c\<in>set b. isWordClass c)
      \<and> CHR ''*'' \<notin> set pre \<and> CHR ''*'' \<notin> set post
      \<and> (pre = [] \<or> \<not> isWordClass (last pre)) \<and> (post = [] \<or> \<not> isWordClass (hd post))
      \<and> CHR ''['' \<notin> set (pre @ post) \<and> CHR ''$'' \<notin> set (pre @ post)
      \<and> \<not> pmatch (pre @ a @ ''*'' @ b @ post)
    \<longrightarrow> optional env (pre @ a @ ''*'' @ b @ post) =
          (case Glob env (a @ ''*'' @ b) of
             Inl err \<Rightarrow> (pre @ a @ ''*'' @ b @ post, Some err)
           | Inr files \<Rightarrow>
               if files = [] then (pre @ a @ ''*'' @ b @ post, Some ErrNoSuchFile)
               else (pre @ Join files '' '' @ post, None)))
   \<and> (CHR ''['' \<notin> set t \<and> \<not> pmatch t
        \<and> g \<in> set (globs_FindAllString (Expand (getenv env) t))
        \<and> Glob env g = Inr [] \<and> (\<forall>h. \<exists>fs. Glob env h = Inr fs)
      \<longrightarrow> snd (optional env t) = Some ErrNoSuchFile)"
proof (intro conjI impI)
  let ?tok = "a @ ''*'' @ b"
  let ?t = "pre @ a @ ''*'' @ b @ post"
  assume h: "(\<forall>c\<in>set a. isWordClass c) \<and> (\<forall>c\<in>set b. isWordClass c)
      \<and> CHR ''*'' \<notin> set pre \<and> CHR ''*'' \<notin> set post
      \<and> (pre = [] \<or> \<not> isWordClass (last pre)) \<and> (post = [] \<or> \<not> isWordClass (hd post))
      \<and> CHR ''['' \<notin> set (pre @ post) \<and> CHR ''$'' \<notin> set (pre @ post)
      \<and> \<not> pmatch (pre @ a @ ''*'' @ b @ post)"
  have cls: "CHR ''['' \<notin> set a" "CHR ''['' \<notin> set b" "CHR ''$'' \<notin> set a" "CHR ''$'' \<notin> set b"
    "CHR ''*'' \<notin> set a"
    using h by (auto simp: isWordClass_def)
  have nb: "CHR ''['' \<notin> set ?t" and nd: "CHR ''$'' \<notin> set ?t"
    using h cls by auto
  have gs: "globs_FindAllString ?t = [?tok]"
    using h by (intro globs_single) auto
  have rp: "Replace ?t ?tok new = pre @ new @ post" for new
    using Replace_token [of "CHR ''*''" pre a post b new] h cls(5) by simp
  have "optional env ?t = glob_loop env [?tok] ?t"
    using nb nd h gs by (simp add: optional_no_open Expand_no_dollar del: append.simps append_assoc)
  also have "\<dots> = (case Glob env ?tok of
             Inl err \<Rightarrow> (?t, Some err)
           | Inr files \<Rightarrow>
               if files = [] then (?t, Some ErrNoSuchFile)
               else (pre @ Join files '' '' @ post, None))"
    by (simp add: rp split: sum.splits del: append.simps append_assoc)
  finally show "optional env ?t = (case Glob env ?tok of
             Inl err \<Rightarrow> (?t, Some err)
           | Inr files \<Rightarrow>
               if files = [] then (?t, Some ErrNoSuchFile)
               else (pre @ Join files '' '' @ post, None))" .
next
  assume h: "CHR ''['' \<notin> set t \<and> \<not> pmatch t
        \<and> g \<in> set (globs_FindAllString (Expand (getenv env) t))
        \<and> Glob env g = Inr [] \<and> (\<forall>h. \<exists>fs. Glob env h = Inr fs)"
  then have "snd (glob_loop env (globs_FindAllString (Expand (getenv env) t)) (Expand (getenv env) t))
      = Some ErrNoSuchFile"
    by (intro glob_loop_no_file [of g]) auto
  then show "snd (optional env t) = Some ErrNoSuchFile"
    using h by (simp add: optional_no_open)
qed


section \<open>The claims\<close>

text \<open>
  C5. The rounds of the bracket loop. When the first \<open>[\<close> of the text comes before its
  first \<open>]\<close>, the text is \<open>pre [ mid ] post\<close> with no bracket in \<open>pre\<close> and no
  \<open>]\<close> in \<open>mid\<close>. If a placeholder of upper-case letters is left anywhere in the text,
  the loop goes on with \<open>pre post\<close>: the fragment is deleted with its brackets. Otherwise
  it goes on with \<open>pre mid post\<close>: only the two brackets are removed. When no \<open>[\<close> is
  left after that, this is the text the loop returns, with no error. Over all the rounds
  of a text whose fragments have no bracket inside, the loop returns the text that this
  rule gives, fragment after fragment from the left (\<open>resolved_text\<close>).
\<close>

theorem fragment_rounds:
  "(CHR ''['' \<notin> set pre \<and> CHR '']'' \<notin> set pre \<and> CHR '']'' \<notin> set mid \<longrightarrow>
      brackets (pre @ ''['' @ mid @ '']'' @ post) =
        brackets (if pmatch (pre @ ''['' @ mid @ '']'' @ post) then pre @ post
                  else pre @ mid @ post)
      \<and> optional env (pre @ ''['' @ mid @ '']'' @ post) =
          optional env (if pmatch (pre @ ''['' @ mid @ '']'' @ post) then pre @ post
                        else pre @ mid @ post)
      \<and> (pmatch (pre @ ''['' @ mid @ '']'' @ post) \<and> CHR ''['' \<notin> set post \<longrightarrow>
            brackets (pre @ ''['' @ mid @ '']'' @ post) = (pre @ post, None))
      \<and> (\<not> pmatch (pre @ ''['' @ mid @ '']'' @ post) \<and> CHR ''['' \<notin> set (mid @ post) \<longrightarrow>
            brackets (pre @ ''['' @ mid @ '']'' @ post) = (pre @ mid @ post, None)))
   \<and> (no_bracket x0 \<and> flat_fragments fs \<longrightarrow>
        brackets (fragments_text x0 fs) = (resolved_text x0 fs, None))"
proof (intro conjI impI)
  assume h: "CHR ''['' \<notin> set pre \<and> CHR '']'' \<notin> set pre \<and> CHR '']'' \<notin> set mid"
  then show s: "brackets (pre @ ''['' @ mid @ '']'' @ post) =
        brackets (if pmatch (pre @ ''['' @ mid @ '']'' @ post) then pre @ post
                  else pre @ mid @ post)"
    by (intro brackets_step) auto
  then show "optional env (pre @ ''['' @ mid @ '']'' @ post) =
          optional env (if pmatch (pre @ ''['' @ mid @ '']'' @ post) then pre @ post
                        else pre @ mid @ post)"
    by (rule optional_cong)
  {
    assume d: "pmatch (pre @ ''['' @ mid @ '']'' @ post) \<and> CHR ''['' \<notin> set post"
    with h have "brackets (pre @ post) = (pre @ post, None)"
      by (intro brackets_no_open) auto
    with s d show "brackets (pre @ ''['' @ mid @ '']'' @ post) = (pre @ post, None)"
      by simp
  }
  {
    assume k: "\<not> pmatch (pre @ ''['' @ mid @ '']'' @ post) \<and> CHR ''['' \<notin> set (mid @ post)"
    with h have "brackets (pre @ mid @ post) = (pre @ mid @ post, None)"
      by (intro brackets_no_open) auto
    with s k show "brackets (pre @ ''['' @ mid @ '']'' @ post) = (pre @ mid @ post, None)"
      by simp
  }
next
  assume "no_bracket x0 \<and> flat_fragments fs"
  then show "brackets (fragments_text x0 fs) = (resolved_text x0 fs, None)"
    by (intro brackets_resolved) auto
qed

theorem fragment_rounds_witness:
  "pmatch ''-l {{WHAT}} [-r]''
   \<and> brackets ''-l {{WHAT}} [-r]'' = (''-l {{WHAT}} '', None)
   \<and> \<not> pmatch ''-l [-r] x''
   \<and> brackets ''-l [-r] x'' = (''-l -r x'', None)
   \<and> optional bare_env ''-l [-r] x'' = optional bare_env ''-l -r x''
   \<and> resolved_text ''-l '' [(''{{EVER}}'', '' ''), (''-a'', [])] = ''-l  -a''
   \<and> brackets ''-l [{{EVER}}] [-a]'' = (''-l  -a'', None)"
proof -
  have p1: "pmatch ''-l {{WHAT}} [-r]''" by code_simp
  have p2: "\<not> pmatch ''-l [-r] x''" by code_simp
  have h1: "CHR ''['' \<notin> set ''-l {{WHAT}} '' \<and> CHR '']'' \<notin> set ''-l {{WHAT}} ''
      \<and> CHR '']'' \<notin> set ''-r''" by simp
  have h2: "CHR ''['' \<notin> set ''-l '' \<and> CHR '']'' \<notin> set ''-l '' \<and> CHR '']'' \<notin> set ''-r''"
    by simp
  have e1: "''-l {{WHAT}} '' @ ''['' @ ''-r'' @ '']'' @ [] = ''-l {{WHAT}} [-r]''"
    and e2: "''-l '' @ ''['' @ ''-r'' @ '']'' @ '' x'' = ''-l [-r] x''"
    and e3: "''-l '' @ ''-r'' @ '' x'' = ''-l -r x''"
    and e4: "''-l {{WHAT}} '' @ [] = ''-l {{WHAT}} ''"
    and n1: "CHR ''['' \<notin> set ([] :: string)" and n2: "CHR ''['' \<notin> set (''-r'' @ '' x'')"
    by simp_all
  note t1 = fragment_rounds [of "''-l {{WHAT}} ''" "''-r''" "[]" bare_env "[]" "[]", unfolded e1 e4]
  note t2 = fragment_rounds [of "''-l ''" "''-r''" "'' x''" bare_env "''-l ''"
      "[(''{{EVER}}'', '' ''), (''-a'', [])]", unfolded e2 e3]
  have 1: "brackets ''-l {{WHAT}} [-r]'' = (''-l {{WHAT}} '', None)"
    using t1 h1 p1 n1 by blast
  have 2: "brackets ''-l [-r] x'' = (''-l -r x'', None)"
    using t2 h2 p2 n2 by blast
  have "optional bare_env ''-l [-r] x''
      = optional bare_env (if pmatch ''-l [-r] x'' then ''-l '' @ '' x'' else ''-l -r x'')"
    using t2 h2 by blast
  with p2 have 3: "optional bare_env ''-l [-r] x'' = optional bare_env ''-l -r x''" by simp
  have f: "no_bracket ''-l '' \<and> flat_fragments [(''{{EVER}}'', '' ''), (''-a'', [])]"
    by (simp add: no_bracket_def flat_fragments_def)
  have r: "resolved_text ''-l '' [(''{{EVER}}'', '' ''), (''-a'', [])] = ''-l  -a''"
    by code_simp
  have "brackets (fragments_text ''-l '' [(''{{EVER}}'', '' ''), (''-a'', [])])
      = (resolved_text ''-l '' [(''{{EVER}}'', '' ''), (''-a'', [])], None)"
    using t2 f by blast
  then have 4: "brackets ''-l [{{EVER}}] [-a]'' = (''-l  -a'', None)"
    using r by simp
  from p1 1 p2 2 3 r 4 show ?thesis by blast
qed


text \<open>
  C3, as the code has it. The syntax error is raised by a round of the bracket loop whose
  text has a \<open>[\<close> and whose first \<open>]\<close> is missing or comes before that \<open>[\<close>. The loop
  stops as soon as no \<open>[\<close> is left, so a text with a \<open>]\<close> and no \<open>[\<close> passes the
  bracket stage unchanged and without an error.
\<close>

theorem optional_syntax_error:
  "(CHR ''['' \<notin> set pre \<and> (CHR '']'' \<in> set pre \<or> CHR '']'' \<notin> set post) \<longrightarrow>
      optional env (pre @ ''['' @ post) = (pre @ ''['' @ post, Some ErrSyntaxError))
   \<and> (CHR ''['' \<notin> set text \<longrightarrow>
        brackets text = (text, None)
        \<and> optional env text =
            (if pmatch text then (text, Some ErrIncomplete)
             else glob_loop env (globs_FindAllString (Expand (getenv env) text))
                    (Expand (getenv env) text)))"
proof (intro conjI impI)
  assume a: "CHR ''['' \<notin> set pre \<and> (CHR '']'' \<in> set pre \<or> CHR '']'' \<notin> set post)"
  show "optional env (pre @ ''['' @ post) = (pre @ ''['' @ post, Some ErrSyntaxError)"
  proof (cases "CHR '']'' \<in> set pre")
    case True
    with a show ?thesis by (simp add: optional_def brackets_close_first del: append.simps)
  next
    case False
    with a have "CHR '']'' \<notin> set (pre @ ''['' @ post)" by simp
    moreover have "CHR ''['' \<in> set (pre @ ''['' @ post)" by simp
    ultimately show ?thesis
      by (simp add: optional_def brackets_no_close del: append.simps set_append)
  qed
next
  assume "CHR ''['' \<notin> set text"
  then show "brackets text = (text, None)" by (rule brackets_no_open)
next
  assume "CHR ''['' \<notin> set text"
  then show "optional env text =
            (if pmatch text then (text, Some ErrIncomplete)
             else glob_loop env (globs_FindAllString (Expand (getenv env) text))
                    (Expand (getenv env) text))"
    by (rule optional_no_open)
qed

theorem optional_syntax_error_witness:
  "optional bare_env ''] ['' = (''] ['', Some ErrSyntaxError)
   \<and> optional bare_env ''[a'' = (''[a'', Some ErrSyntaxError)
   \<and> brackets ''a]'' = (''a]'', None)
   \<and> optional bare_env ''a]'' = (''a]'', None)"
proof -
  have 1: "optional bare_env ''] ['' = (''] ['', Some ErrSyntaxError)"
    using optional_syntax_error [of "''] ''" "[]" bare_env "[]"] by simp
  have 2: "optional bare_env ''[a'' = (''[a'', Some ErrSyntaxError)"
    using optional_syntax_error [of "[]" "''a''" bare_env "[]"] by simp
  have 3: "brackets ''a]'' = (''a]'', None) \<and> optional bare_env ''a]'' = (''a]'', None)"
    using optional_syntax_error [of "[]" "[]" bare_env "''a]''"]
    by (simp add: pmatch_here_def globs_FindAllString_def)
  from 1 2 3 show ?thesis by simp
qed

text \<open>
  C3 as stated fails: the template \<open>a]\<close> has more \<open>]\<close> than \<open>[\<close>, and it renders
  to itself with no error.
\<close>

theorem unmatched_close_renders: "Render bare_env (template ''a]'') [] = (''a]'', None)"
  by code_simp

text \<open>
  C10, as the code has it. \<^verbatim>\<open>pmatch\<close> finds exactly the texts that contain two opening
  braces, one or more upper-case ASCII letters and two closing braces. A placeholder whose
  name has a character that is no upper-case letter, and no brace, bracket, dollar sign or
  star, is not found: in a text with no other brace, bracket, dollar sign or star it causes
  no incomplete-parameters error and survives verbatim, and inside an optional fragment it
  does not cause the fragment to be deleted (the brackets go, the fragment stays).
\<close>

theorem other_placeholder_survives:
  assumes name: "\<exists>c\<in>set n. \<not> isUpperAZ c"
    and n: "set n \<inter> set ''{}[]$*'' = {}"
    and ctx: "set (pre @ mid1 @ mid2 @ post) \<inter> set ''{[]$*'' = {}"
  shows "(pmatch s \<longleftrightarrow>
           (\<exists>a u b. s = a @ ''{{'' @ u @ ''}}'' @ b \<and> u \<noteq> [] \<and> (\<forall>c\<in>set u. isUpperAZ c)))
       \<and> optional env (pre @ ''{{'' @ n @ ''}}'' @ post) = (pre @ ''{{'' @ n @ ''}}'' @ post, None)
       \<and> optional env (pre @ ''['' @ mid1 @ ''{{'' @ n @ ''}}'' @ mid2 @ '']'' @ post)
           = (pre @ mid1 @ ''{{'' @ n @ ''}}'' @ mid2 @ post, None)"
proof (intro conjI)
  show "pmatch s \<longleftrightarrow>
           (\<exists>a u b. s = a @ ''{{'' @ u @ ''}}'' @ b \<and> u \<noteq> [] \<and> (\<forall>c\<in>set u. isUpperAZ c))"
    by (rule pmatch_iff)
next
  let ?t = "pre @ ''{{'' @ n @ ''}}'' @ post"
  have "\<not> pmatch ?t"
    using name n ctx by (intro pmatch_other_name) auto
  moreover have "CHR ''['' \<notin> set ?t" "CHR ''$'' \<notin> set ?t" "CHR ''*'' \<notin> set ?t"
    using n ctx by auto
  ultimately show "optional env ?t = (?t, None)"
    by (intro optional_plain)
next
  let ?mid = "mid1 @ ''{{'' @ n @ ''}}'' @ mid2"
  let ?t = "pre @ ''['' @ ?mid @ '']'' @ post"
  let ?r = "pre @ ?mid @ post"
  have np: "\<not> pmatch ((pre @ ''['' @ mid1) @ ''{{'' @ n @ ''}}'' @ (mid2 @ '']'' @ post))"
    using name n ctx by (intro pmatch_other_name) auto
  have nr: "\<not> pmatch ((pre @ mid1) @ ''{{'' @ n @ ''}}'' @ (mid2 @ post))"
    using name n ctx by (intro pmatch_other_name) auto
  have "CHR ''['' \<notin> set pre" "CHR '']'' \<notin> set pre" "CHR '']'' \<notin> set ?mid"
    using n ctx by auto
  then have "brackets ?t = brackets (if pmatch ?t then pre @ post else ?r)"
    by (rule brackets_step)
  with np have b: "brackets ?t = brackets ?r" by simp
  have "optional env ?t = optional env ?r"
    using b by (rule optional_cong)
  moreover have "optional env ?r = (?r, None)"
  proof (rule optional_plain)
    show "\<not> pmatch ?r" using nr by simp
  qed (use n ctx in auto)
  ultimately show "optional env (pre @ ''['' @ mid1 @ ''{{'' @ n @ ''}}'' @ mid2 @ '']'' @ post)
           = (pre @ mid1 @ ''{{'' @ n @ ''}}'' @ mid2 @ post, None)"
    by simp
qed

theorem other_placeholder_survives_witness:
  "(\<exists>c\<in>set ''foo''. \<not> isUpperAZ c)
   \<and> set ''foo'' \<inter> set ''{}[]$*'' = {}
   \<and> set (''-l '' @ ''-d '' @ [] @ '' x'') \<inter> set ''{[]$*'' = {}
   \<and> pmatch ''-l {{WHAT}}''
   \<and> optional bare_env ''-l {{foo}} x'' = (''-l {{foo}} x'', None)
   \<and> optional bare_env ''-l [-d {{foo}}] x'' = (''-l -d {{foo}} x'', None)"
proof -
  have h: "\<exists>c\<in>set ''foo''. \<not> isUpperAZ c" "set ''foo'' \<inter> set ''{}[]$*'' = {}"
    "set (''-l '' @ ''-d '' @ [] @ '' x'') \<inter> set ''{[]$*'' = {}"
    by (simp_all add: isUpperAZ_def)
  have p: "pmatch ''-l {{WHAT}}''" by code_simp
  show ?thesis
    using other_placeholder_survives [OF h, of "''-l {{WHAT}}''" bare_env] h p by simp
qed

text \<open>
  C10 as stated fails for a name with a dollar sign: \<open>{{a$b}}\<close> has lower-case letters
  in its name, no parameter is supplied, the rendering succeeds, and the environment
  expansion has replaced \<open>$b\<close>: the placeholder does not survive verbatim.
\<close>

theorem dollar_placeholder_expands:
  "Render bare_env (template ''{{a$b}}'') [] = (''{{a}}'', None)"
  by code_simp




text \<open>
  C8. A parameter with a non-empty name \<open>n\<close> replaces every occurrence of \<open>{{n}}\<close>:
  when the text is the segments \<open>segs\<close> joined by \<open>{{n}}\<close>, these being the occurrences
  that a search from the left finds (none starts inside a segment), rendering goes on with
  the segments joined by the value; and every template is such segments joined by the
  placeholder. A parameter with an empty name appends a space and its
  value; a list of such parameters appends them in the order they are supplied.
\<close>

theorem Render_parameters:
  "(0 < length n \<and> segs \<noteq> []
      \<and> (\<forall>x\<in>set (butlast segs).
            \<not> sublist (''{{'' @ n @ ''}}'') (x @ butlast (''{{'' @ n @ ''}}'')))
      \<and> \<not> sublist (''{{'' @ n @ ''}}'') (last segs)
      \<and> Params c = Join segs (''{{'' @ n @ ''}}'')
    \<longrightarrow> Render env c ((n, v) # ps) = Render env (c\<lparr>Params := Join segs v\<rparr>) ps)
   \<and> (0 < length n \<longrightarrow>
        (\<exists>ss. ss \<noteq> [] \<and> Params c = Join ss (''{{'' @ n @ ''}}'')
           \<and> (\<forall>x\<in>set (butlast ss).
                 \<not> sublist (''{{'' @ n @ ''}}'') (x @ butlast (''{{'' @ n @ ''}}'')))
           \<and> \<not> sublist (''{{'' @ n @ ''}}'') (last ss)
           \<and> Render env c ((n, v) # ps) = Render env (c\<lparr>Params := Join ss v\<rparr>) ps))
   \<and> Render env c (([], v) # ps) = Render env (c\<lparr>Params := Params c @ '' '' @ v\<rparr>) ps
   \<and> ((\<forall>p\<in>set ps. fst p = []) \<longrightarrow>
        Render env c ps = optional env (Params c @ concat (map (\<lambda>p. '' '' @ snd p) ps)))"
proof (intro conjI impI)
  assume a: "0 < length n \<and> segs \<noteq> []
      \<and> (\<forall>x\<in>set (butlast segs).
            \<not> sublist (''{{'' @ n @ ''}}'') (x @ butlast (''{{'' @ n @ ''}}'')))
      \<and> \<not> sublist (''{{'' @ n @ ''}}'') (last segs)
      \<and> Params c = Join segs (''{{'' @ n @ ''}}'')"
  have "Replace (Join segs (''{{'' @ n @ ''}}'')) (''{{'' @ n @ ''}}'') v = Join segs v"
    using a by (intro Replace_Join) auto
  then show "Render env c ((n, v) # ps) = Render env (c\<lparr>Params := Join segs v\<rparr>) ps"
    using a by (simp add: Render_def)
next
  assume n: "0 < length n"
  let ?t = "''{{'' @ n @ ''}}''"
  have "?t \<noteq> []" by simp
  then obtain ss where ss: "ss \<noteq> []" "Params c = Join ss ?t"
    "\<forall>x\<in>set (butlast ss). \<not> sublist ?t (x @ butlast ?t)" "\<not> sublist ?t (last ss)"
    using occurrences_split [of ?t "Params c"] by blast
  have "Replace (Join ss ?t) ?t v = Join ss v"
    using ss by (intro Replace_Join) auto
  then have "Render env c ((n, v) # ps) = Render env (c\<lparr>Params := Join ss v\<rparr>) ps"
    using n ss(2) by (simp add: Render_def)
  with ss show "\<exists>ss. ss \<noteq> [] \<and> Params c = Join ss (''{{'' @ n @ ''}}'')
           \<and> (\<forall>x\<in>set (butlast ss).
                 \<not> sublist (''{{'' @ n @ ''}}'') (x @ butlast (''{{'' @ n @ ''}}'')))
           \<and> \<not> sublist (''{{'' @ n @ ''}}'') (last ss)
           \<and> Render env c ((n, v) # ps) = Render env (c\<lparr>Params := Join ss v\<rparr>) ps"
    by blast
next
  show "Render env c (([], v) # ps) = Render env (c\<lparr>Params := Params c @ '' '' @ v\<rparr>) ps"
    by (simp add: Render_def)
next
  assume "\<forall>p\<in>set ps. fst p = []"
  then show "Render env c ps = optional env (Params c @ concat (map (\<lambda>p. '' '' @ snd p) ps))"
    by (simp add: Render_def Render_loop_bare)
qed

theorem Render_parameters_witness:
  "\<not> sublist ''{{A}}'' ([] @ butlast ''{{A}}'')
   \<and> \<not> sublist ''{{A}}'' ('' and '' @ butlast ''{{A}}'')
   \<and> \<not> sublist ''{{A}}'' (last [[], '' and '', []])
   \<and> Join [[], '' and '', []] ''{{A}}'' = ''{{A}} and {{A}}''
   \<and> Render bare_env (template ''{{A}} and {{A}}'') [(''A'', ''x'')] = (''x and x'', None)
   \<and> Render bare_env (template ''-l'') [([], ''a''), ([], ''b'')] = (''-l a b'', None)"
proof -
  have h: "0 < length ''A''" "[[], '' and '', []] \<noteq> ([] :: string list)"
    "\<forall>x\<in>set (butlast [[], '' and '', []]).
            \<not> sublist (''{{'' @ ''A'' @ ''}}'') (x @ butlast (''{{'' @ ''A'' @ ''}}''))"
    "\<not> sublist (''{{'' @ ''A'' @ ''}}'') (last [[], '' and '', []])"
    "Params (template ''{{A}} and {{A}}'') = Join [[], '' and '', []] (''{{'' @ ''A'' @ ''}}'')"
    by (simp_all add: template_def sublist_Cons_right)
  have o1: "optional bare_env ''x and x'' = (''x and x'', None)" by code_simp
  have o2: "optional bare_env ''-l a b'' = (''-l a b'', None)" by code_simp
  have "Render bare_env (template ''{{A}} and {{A}}'') [(''A'', ''x'')]
          = Render bare_env ((template ''{{A}} and {{A}}'')\<lparr>Params := Join [[], '' and '', []] ''x''\<rparr>) []"
    using Render_parameters [of "''A''" "[[], '' and '', []]" "template ''{{A}} and {{A}}''" bare_env "''x''" "[]"] h
    by blast
  then have 1: "Render bare_env (template ''{{A}} and {{A}}'') [(''A'', ''x'')] = (''x and x'', None)"
    using o1 by (simp add: Render_def)
  have 2: "Render bare_env (template ''-l'') [([], ''a''), ([], ''b'')] = (''-l a b'', None)"
    using Render_parameters [of "[]" "[]" "template ''-l''" bare_env "[]" "[([], ''a''), ([], ''b'')]"] o2
    by (simp add: template_def)
  from h 1 2 show ?thesis by simp
qed

text \<open>
  C6 on the code: a token with two stars. In a directory whose only file is \<open>x.go\<close>
  the token \<open>*.go*\<close> matches that file, so the claim has it replaced by \<open>x.go\<close>.
  The pattern \<^verbatim>\<open>[\w.-]*\*[\w.-]*\<close> takes one star for each match: it finds \<open>*.go\<close> and then
  \<open>*\<close>, each is replaced in turn in the text as it is by then, and the rendered text
  names no file. The token \<open>*.go\<close>, with one star, is replaced by \<open>x.go\<close>.
\<close>

theorem two_star_token:
  "Glob (dir_env [''x.go'']) ''*.go*'' = Inr [''x.go'']
   \<and> Render (dir_env [''x.go'']) (template ''*.go*'') [] = (''x.gox.go'', None)
   \<and> Render (dir_env [''x.go'']) (template ''*.go'') [] = (''x.go'', None)"
  by code_simp

text \<open>
  C9. Whenever \<^verbatim>\<open>Runner\<close> (and so \<^verbatim>\<open>Run\<close> and \<^verbatim>\<open>RunAsync\<close>) calls
  \<^verbatim>\<open>os.StartProcess\<close>, the argument vector is \<^verbatim>\<open>strings.Fields\<close> of the command line: the
  path that was looked up, followed by a space and the rendered text when that text is not
  empty. So every argument is non-empty and has no white-space byte in it: a value with
  white space in it is split, runs of white space collapse, and a quote is an ordinary
  character.
\<close>

theorem argv_is_Fields:
  "(spawn (Runner env sid c ps) = Some (path, argv, attr) \<longrightarrow>
      LookPath env (Path c) = Inr path \<and> snd (Render env c ps) = None
      \<and> argv = Fields (if 0 < length (fst (Render env c ps))
                       then path @ '' '' @ fst (Render env c ps) else path)
      \<and> (\<forall>a\<in>set argv. a \<noteq> [] \<and> (\<forall>ch\<in>set a. \<not> isSpaceByte ch)))
   \<and> (spawn (RunAsync env sid c ps) = Some (path', argv', attr') \<longrightarrow>
      LookPath env (Path c) = Inr path' \<and> snd (Render env c ps) = None
      \<and> argv' = Fields (if 0 < length (fst (Render env c ps))
                        then path' @ '' '' @ fst (Render env c ps) else path')
      \<and> (\<forall>a\<in>set argv'. a \<noteq> [] \<and> (\<forall>ch\<in>set a. \<not> isSpaceByte ch)))"
proof (intro conjI impI)
  assume a: "spawn (Runner env sid c ps) = Some (path, argv, attr)"
  note r = Runner_spawn [OF a]
  from r show "LookPath env (Path c) = Inr path" by blast
  from r show "snd (Render env c ps) = None" by blast
  from r show f: "argv = Fields (if 0 < length (fst (Render env c ps))
                       then path @ '' '' @ fst (Render env c ps) else path)" by blast
  show "\<forall>a\<in>set argv. a \<noteq> [] \<and> (\<forall>ch\<in>set a. \<not> isSpaceByte ch)"
    unfolding f by (rule Fields_fields)
next
  assume a: "spawn (RunAsync env sid c ps) = Some (path', argv', attr')"
  then have "spawn (Runner env sid (c\<lparr>Async := True\<rparr>) ps) = Some (path', argv', attr')"
    by (simp add: RunAsync_def)
  note r = Runner_spawn [OF this, unfolded Render_Async]
  from r show "LookPath env (Path c) = Inr path'" by simp
  from r show "snd (Render env c ps) = None" by blast
  from r show f: "argv' = Fields (if 0 < length (fst (Render env c ps))
                       then path' @ '' '' @ fst (Render env c ps) else path')" by blast
  show "\<forall>a\<in>set argv'. a \<noteq> [] \<and> (\<forall>ch\<in>set a. \<not> isSpaceByte ch)"
    unfolding f by (rule Fields_fields)
qed

theorem argv_is_Fields_witness:
  "spawn (Runner (ok_env 0) 0 (template ''-l {{WHAT}}'') [(''WHAT'', ''a  b'')])
     = Some (''/bin/ls'', [''/bin/ls'', ''-l'', ''a'', ''b''], \<lparr>attr_Dir = [], attr_Uid = None\<rparr>)
   \<and> Render (ok_env 0) (template ''-l {{WHAT}}'') [(''WHAT'', ''a  b'')] = (''-l a  b'', None)
   \<and> [''/bin/ls'', ''-l'', ''a'', ''b''] = Fields ''/bin/ls -l a  b''
   \<and> \<not> isSpaceByte (CHR ''a'') \<and> \<not> isSpaceByte (CHR ''b'')"
proof -
  have r: "Render (ok_env 0) (template ''-l {{WHAT}}'') [(''WHAT'', ''a  b'')] = (''-l a  b'', None)"
    by code_simp
  have f: "Fields ''/bin/ls -l a  b'' = [''/bin/ls'', ''-l'', ''a'', ''b'']"
    by (simp add: Fields_def isSpace_def)
  have 1: "spawn (Runner (ok_env 0) 0 (template ''-l {{WHAT}}'') [(''WHAT'', ''a  b'')])
     = Some (''/bin/ls'', [''/bin/ls'', ''-l'', ''a'', ''b''], \<lparr>attr_Dir = [], attr_Uid = None\<rparr>)"
    by (simp add: Runner_eval r f)
  have 4: "\<forall>a\<in>set [''/bin/ls'', ''-l'', ''a'', ''b'']. a \<noteq> [] \<and> (\<forall>ch\<in>set a. \<not> isSpaceByte ch)"
    using argv_is_Fields [of "ok_env 0" 0 "template ''-l {{WHAT}}''" "[(''WHAT'', ''a  b'')]"
        "''/bin/ls''" "[''/bin/ls'', ''-l'', ''a'', ''b'']" "\<lparr>attr_Dir = [], attr_Uid = None\<rparr>"] 1
    by blast
  from 4 have 5: "\<not> isSpaceByte (CHR ''a'') \<and> \<not> isSpaceByte (CHR ''b'')" by simp
  from 1 r f 5 show ?thesis by simp
qed

text \<open>
  C7, as the code has it. When \<^verbatim>\<open>Run\<close> is called on a command whose \<^verbatim>\<open>Async\<close> flag is
  not set, the child is started, \<^verbatim>\<open>Wait\<close> reports its state and both pipes are read
  without an error, \<^verbatim>\<open>Run\<close> returns a record whose \<^verbatim>\<open>RC\<close> is the exit status of the
  child, and a nil error, whatever the status is.
\<close>

theorem Run_exit_status:
  assumes "started (Runner env sid c ps)" "\<not> Async c" "Wait env = Inr s"
    "snd (read_outOut env) = None" "snd (read_errOut env) = None"
  shows "\<exists>r. Run env sid c ps = Some (r, None) \<and> RC r = ps_ExitStatus s"
  using assms by (rule Run_started)

theorem Run_exit_status_witness:
  "started (Runner (ok_env 23) 0 failure []) \<and> \<not> Async failure
   \<and> Wait (ok_env 23) = Inr \<lparr>ps_Pid = 4711, ps_ExitStatus = 23, ps_UserTime = 0\<rparr>
   \<and> snd (read_outOut (ok_env 23)) = None \<and> snd (read_errOut (ok_env 23)) = None
   \<and> (\<exists>r. Run (ok_env 23) 0 failure [] = Some (r, None) \<and> RC r = 23)"
proof -
  have r: "Render (ok_env 23) failure [] = ([], None)"
    by code_simp
  have h: "started (Runner (ok_env 23) 0 failure [])" "\<not> Async failure"
    "Wait (ok_env 23) = Inr \<lparr>ps_Pid = 4711, ps_ExitStatus = 23, ps_UserTime = 0\<rparr>"
    "snd (read_outOut (ok_env 23)) = None" "snd (read_errOut (ok_env 23)) = None"
    by (simp_all add: Runner_eval r)
  show ?thesis using Run_exit_status [OF h] h by simp
qed

text \<open>
  C7 as stated fails when reading a pipe fails: the script \<^verbatim>\<open>failure\<close> is started and
  exits with status 23, reading its standard output returns an error, and \<^verbatim>\<open>Run\<close>
  returns that error with a record whose \<^verbatim>\<open>RC\<close> is still 0.
\<close>

theorem Run_read_failure:
  "started (Runner (read_fails_env 23) 0 failure [])
   \<and> Wait (read_fails_env 23) = Inr \<lparr>ps_Pid = 4711, ps_ExitStatus = 23, ps_UserTime = 0\<rparr>
   \<and> Run (read_fails_env 23) 0 failure []
       = Some (\<lparr>SID = 1, PID = 0, RC = 0, Cmd = ''./failure'', Stdout = [], Stderr = [],
                SystemTime = 0, UserTime = 0, Started = 1, Finished = 2\<rparr>,
               Some (ErrOther ''read |0: input/output error''))"
proof -
  have r: "Render (read_fails_env 23) failure [] = ([], None)"
    by code_simp
  show ?thesis by (simp add: Runner_eval r)
qed

text \<open>
  C2 on the code: an asynchronous invocation in which every step succeeds. \<^verbatim>\<open>Runner\<close>
  returns nil and its deferred function sends the record as it is then (no exit code, no
  output, no finish time); the goroutine running \<^verbatim>\<open>finisher\<close> sends the completed record
  as well. Two records are delivered for the one invocation.
\<close>

theorem RunAsync_sends_twice:
  "sent (RunAsync (ok_env 0) 0 (template ''-l'') [])
     = [\<lparr>SID = 1, PID = 0, RC = 0, Cmd = ''/bin/ls -l'', Stdout = [], Stderr = [],
         SystemTime = 0, UserTime = 0, Started = 1, Finished = 0\<rparr>]
   \<and> sent_later (RunAsync (ok_env 0) 0 (template ''-l'') [])
     = [\<lparr>SID = 1, PID = 4711, RC = 0, Cmd = ''/bin/ls -l'', Stdout = [], Stderr = [],
         SystemTime = 0, UserTime = 0, Started = 1, Finished = 2\<rparr>]
   \<and> returned (RunAsync (ok_env 0) 0 (template ''-l'') []) = None
   \<and> length (sent (RunAsync (ok_env 0) 0 (template ''-l'') [])
        @ sent_later (RunAsync (ok_env 0) 0 (template ''-l'') [])) = 2"
proof -
  have r: "Render (ok_env 0) ((template ''-l'')\<lparr>Async := True\<rparr>) [] = (''-l'', None)"
    by code_simp
  show ?thesis by (simp add: Runner_eval r)
qed

text \<open>
  C1 on the code: two calls of \<^verbatim>\<open>nextID\<close> at the same time, the counter at 0. Both make
  their increment before either reads the counter for its \<^verbatim>\<open>return\<close>; the read is not
  under the mutex, and both calls return 2.
\<close>

theorem nextID_concurrent_duplicate:
  "nextID_schedule [0, 1, 0, 1] (0, [NotStarted, NotStarted]) = (2, [Returned 2, Returned 2])"
  by simp

end
